theory Spec2Isabelle
  imports Complex_Main "HOL-Library.Word"
begin

unbundle bit_operations_syntax

section \<open>Runtime sampling of compressed keyframe animations\<close>

text \<open>
  A shallow embedding of \<^verbatim>\<open>src/animation/runtime/sampling_job.cc\<close>.

  Conventions of the embedding.
  \<^item> Arrays reached through raw pointers (\<^verbatim>\<open>int* _cache\<close>, \<^verbatim>\<open>uint8_t* _outdated\<close>,
    spans of keys, the interpolation buffers, the output span) are lists whose length is
    the extent of the array. A read or write outside that extent is the result
    \<open>Inl OutOfBounds\<close>.
  \<^item> An \<^verbatim>\<open>assert\<close> of the source that does not hold is the result \<open>Inl AssertFailed\<close>.
    A run of the model that ends in \<open>Inr\<close> therefore passes every assertion and stays
    inside every array, and computes what a build without assertions computes.
  \<^item> Indices, cursors and counts are C++ \<^verbatim>\<open>int\<close>s that are never negative on a run that
    ends in \<open>Inr\<close>; they are natural numbers here, and every subtraction that would go
    below zero in the source is guarded by an explicit branch.
  \<^item> A \<^verbatim>\<open>float\<close> that the code only stores and compares (the ratio of a key, the query
    ratio) is a \<open>real\<close>. The lanes of a \<^verbatim>\<open>SimdFloat4\<close> whose bits the code manipulates
    are 32-bit patterns, and the floating-point arithmetic of the vector library on them
    is a parameter of the model (record \<open>maths\<close>).
\<close>

datatype fault = OutOfBounds | AssertFailed

subsection \<open>Keyframes\<close>

text \<open>
  The key types are declared in \<^verbatim>\<open>animation_keyframe.h\<close>, which is not part of the
  sources at hand; the fields are the ones \<^verbatim>\<open>sampling_job.cc\<close> reads. Every key has a
  \<open>ratio\<close> and a back-distance \<open>previous\<close>; the templates over \<^verbatim>\<open>_Key\<close> become functions
  over the extensible record \<open>'a key_scheme\<close>.
\<close>

record key =
  ratio :: real
  previous :: nat

type_synonym 'a simd4 = "'a \<times> 'a \<times> 'a \<times> 'a"

type_synonym f32 = "32 word"

record Float3Key = key +
  value3 :: "16 word \<times> 16 word \<times> 16 word"

text \<open>
  A rotation key stores three signed 16-bit components, the 2-bit index \<open>largest\<close> of the
  component that was dropped, and the 1-bit \<open>sign\<close> of that component.
\<close>

record QuaternionKey = key +
  largest :: "2 word"
  sign :: bool
  qvalue :: "16 word \<times> 16 word \<times> 16 word"

text \<open>Reading \<^verbatim>\<open>value[i]\<close> of a key, for the indices 0, 1 and 2 of the array.\<close>

definition at3 :: "'a \<times> 'a \<times> 'a \<Rightarrow> nat \<Rightarrow> 'a" where
  "at3 v i = (case v of (a, b, c) \<Rightarrow> if i = 0 then a else if i = 1 then b else c)"

subsection \<open>Finding the track of a key: TrackForward and TrackBackward\<close>

text \<open>The first loop of \<^verbatim>\<open>TrackForward\<close>: entries from \<open>entry\<close> up to \<open>2 * num_tracks\<close>.\<close>

function TrackForward_scan1 :: "nat list \<Rightarrow> nat \<Rightarrow> nat \<Rightarrow> nat \<Rightarrow> fault + nat option" where
  "TrackForward_scan1 cache target entry num_tracks =
     (if entry < num_tracks * 2 then
        (if length cache \<le> entry then Inl OutOfBounds
         else if cache ! entry = target then Inr (Some (entry - num_tracks))
         else TrackForward_scan1 cache target (entry + 1) num_tracks)
      else Inr None)"
  by pat_completeness auto
termination
  by (relation "measure (\<lambda>(cache, target, entry, num_tracks). num_tracks * 2 - entry)") auto

text \<open>
  The second loop of \<^verbatim>\<open>TrackForward\<close> has no exit condition: it stops at a match, at the
  assertion, or by leaving the array.
\<close>

function TrackForward_scan2 :: "nat list \<Rightarrow> nat \<Rightarrow> nat \<Rightarrow> nat \<Rightarrow> nat \<Rightarrow> fault + nat" where
  "TrackForward_scan2 cache target entry last_track num_tracks =
     (if length cache \<le> entry then Inl OutOfBounds
      else if cache ! entry = target then Inr (entry - num_tracks)
      else if \<not> entry < last_track * num_tracks then Inl AssertFailed
      else TrackForward_scan2 cache target (entry + 1) last_track num_tracks)"
  by pat_completeness auto
termination
  by (relation "measure (\<lambda>(cache, target, entry, last_track, num_tracks). length cache - entry)") auto

definition TrackForward :: "nat list \<Rightarrow> 'a key_scheme list \<Rightarrow> nat \<Rightarrow> nat \<Rightarrow> nat \<Rightarrow> fault + nat" where
  "TrackForward cache keys k last_track num_tracks =
     (if \<not> k < length keys then Inl AssertFailed
      else if \<not> last_track < num_tracks then Inl AssertFailed
      else if k < previous (keys ! k) then Inl AssertFailed
      else
        (let target = k - previous (keys ! k) in
         case TrackForward_scan1 cache target (last_track + num_tracks) num_tracks of
           Inl e \<Rightarrow> Inl e
         | Inr (Some t) \<Rightarrow> Inr t
         | Inr None \<Rightarrow> TrackForward_scan2 cache target num_tracks last_track num_tracks))"

text \<open>
  In \<open>TrackForward\<close> a back-distance larger than the key's position makes the target
  negative in the source; no entry of the cache matches it, and the second loop walks
  until its assertion fails or it leaves the array. The model answers with a fault at
  once.
\<close>

text \<open>The first loop of \<^verbatim>\<open>TrackBackward\<close>: entries from \<open>entry\<close> down to \<open>num_tracks\<close>.\<close>

function TrackBackward_scan1 :: "nat list \<Rightarrow> nat \<Rightarrow> nat \<Rightarrow> nat \<Rightarrow> fault + nat option" where
  "TrackBackward_scan1 cache target entry num_tracks =
     (if num_tracks \<le> entry then
        (if length cache \<le> entry then Inl OutOfBounds
         else if cache ! entry = target then Inr (Some (entry - num_tracks))
         else if entry = 0 then Inr None
         else TrackBackward_scan1 cache target (entry - 1) num_tracks)
      else Inr None)"
  by pat_completeness auto
termination
  by (relation "measure (\<lambda>(cache, target, entry, num_tracks). entry)") auto

text \<open>The second loop of \<^verbatim>\<open>TrackBackward\<close>, again without an exit condition.\<close>

function TrackBackward_scan2 :: "nat list \<Rightarrow> nat \<Rightarrow> nat \<Rightarrow> nat \<Rightarrow> nat \<Rightarrow> fault + nat" where
  "TrackBackward_scan2 cache target entry last_track num_tracks =
     (if length cache \<le> entry then Inl OutOfBounds
      else if cache ! entry = target then Inr (entry - num_tracks)
      else if \<not> last_track + num_tracks < entry then Inl AssertFailed
      else TrackBackward_scan2 cache target (entry - 1) last_track num_tracks)"
  by pat_completeness auto
termination
  by (relation "measure (\<lambda>(cache, target, entry, last_track, num_tracks). entry)") auto

definition TrackBackward :: "nat list \<Rightarrow> nat \<Rightarrow> nat \<Rightarrow> nat \<Rightarrow> fault + nat" where
  "TrackBackward cache target last_track num_tracks =
     (if \<not> last_track < num_tracks then Inl AssertFailed
      else
        case TrackBackward_scan1 cache target (last_track + num_tracks) num_tracks of
          Inl e \<Rightarrow> Inl e
        | Inr (Some t) \<Rightarrow> Inr t
        | Inr None \<Rightarrow> TrackBackward_scan2 cache target (num_tracks * 2 - 1) last_track num_tracks)"

subsection \<open>UpdateCacheCursor\<close>

text \<open>The statement \<^verbatim>\<open>_outdated[track / 32] |= 1 << ((track & 0x1f) / 4)\<close>.\<close>

definition mark_outdated :: "8 word list \<Rightarrow> nat \<Rightarrow> fault + 8 word list" where
  "mark_outdated outdated track =
     (if length outdated \<le> track div 32 then Inl OutOfBounds
      else Inr (outdated[track div 32 :=
                  outdated ! (track div 32) OR push_bit ((track mod 32) div 4) 1]))"

text \<open>The initialisation loop \<^verbatim>\<open>for (; cursor < num_tracks * 2; ++cursor) _cache[cursor] = cursor\<close>.\<close>

function init_cache :: "nat list \<Rightarrow> nat \<Rightarrow> nat \<Rightarrow> fault + nat \<times> nat list" where
  "init_cache cache cursor limit =
     (if cursor < limit then
        (if length cache \<le> cursor then Inl OutOfBounds
         else init_cache (cache[cursor := cursor]) (cursor + 1) limit)
      else Inr (cursor, cache))"
  by pat_completeness auto
termination
  by (relation "measure (\<lambda>(cache, cursor, limit). limit - cursor)") auto

text \<open>The loop \<^verbatim>\<open>for (int i = 0; i < num_outdated_flags - 1; ++i) _outdated[i] = 0xff\<close>.\<close>

function init_outdated :: "8 word list \<Rightarrow> nat \<Rightarrow> nat \<Rightarrow> fault + 8 word list" where
  "init_outdated outdated i num_outdated_flags =
     (if i + 1 < num_outdated_flags then
        (if length outdated \<le> i then Inl OutOfBounds
         else init_outdated (outdated[i := 0xff]) (i + 1) num_outdated_flags)
      else Inr outdated)"
  by pat_completeness auto
termination
  by (relation "measure (\<lambda>(outdated, i, num_outdated_flags). num_outdated_flags - i)") auto

text \<open>The branch \<^verbatim>\<open>if (!cursor) { ... }\<close> of \<^verbatim>\<open>UpdateCacheCursor\<close>.\<close>

definition init_cursor ::
  "nat \<Rightarrow> nat \<Rightarrow> nat list \<Rightarrow> 8 word list \<Rightarrow> fault + nat \<times> nat list \<times> 8 word list" where
  "init_cursor num_soa_tracks cursor cache outdated =
     (case init_cache cache cursor (num_soa_tracks * 4 * 2) of
        Inl e \<Rightarrow> Inl e
      | Inr (cursor', cache') \<Rightarrow>
          (let num_outdated_flags = (num_soa_tracks + 7) div 8 in
           case init_outdated outdated 0 num_outdated_flags of
             Inl e \<Rightarrow> Inl e
           | Inr outdated' \<Rightarrow>
               if num_outdated_flags = 0 \<or> length outdated' \<le> num_outdated_flags - 1
               then Inl OutOfBounds
               else Inr (cursor', cache',
                         outdated'[num_outdated_flags - 1 :=
                           drop_bit (num_outdated_flags * 8 - num_soa_tracks) 0xff])))"

text \<open>The body of the loop that reads forward.\<close>

definition forward_body ::
  "'a key_scheme list \<Rightarrow> nat \<Rightarrow> nat \<Rightarrow> nat \<Rightarrow> nat list \<Rightarrow> 8 word list
   \<Rightarrow> fault + nat \<times> nat list \<times> 8 word list" where
  "forward_body keys num_tracks cursor track cache outdated =
     (case TrackForward cache keys cursor track num_tracks of
        Inl e \<Rightarrow> Inl e
      | Inr track' \<Rightarrow>
          (case mark_outdated outdated track' of
             Inl e \<Rightarrow> Inl e
           | Inr outdated' \<Rightarrow>
               (let penultimate = track'; last = track' + num_tracks in
                if length cache \<le> last then Inl OutOfBounds
                else if cache ! last \<noteq> cursor - previous (keys ! cursor) then Inl AssertFailed
                else Inr (track', cache[penultimate := cache ! last, last := cursor], outdated'))))"

text \<open>
  The loop that reads forward. Its condition reads
  \<^verbatim>\<open>_keys[cursor - _keys[cursor].previous].ratio\<close>, the ratio of the key that precedes the
  key at the cursor on the same track.
\<close>

function Forward ::
  "real \<Rightarrow> 'a key_scheme list \<Rightarrow> nat \<Rightarrow> nat \<Rightarrow> nat \<Rightarrow> nat list \<Rightarrow> 8 word list
   \<Rightarrow> fault + nat \<times> nat \<times> nat list \<times> 8 word list" where
  "Forward r keys num_tracks cursor track cache outdated =
     (if cursor < length keys then
        (if cursor < previous (keys ! cursor) then Inl OutOfBounds
         else if ratio (keys ! (cursor - previous (keys ! cursor))) \<le> r then
           (case forward_body keys num_tracks cursor track cache outdated of
              Inl e \<Rightarrow> Inl e
            | Inr (track', cache', outdated') \<Rightarrow>
                Forward r keys num_tracks (cursor + 1) track' cache' outdated')
         else Inr (cursor, track, cache, outdated))
      else Inr (cursor, track, cache, outdated))"
  by pat_completeness auto
termination
  by (relation "measure (\<lambda>(r, keys, num_tracks, cursor, track, cache, outdated).
                   length keys - cursor)") auto

text \<open>The body of the loop that rewinds.\<close>

definition rewind_body ::
  "'a key_scheme list \<Rightarrow> nat \<Rightarrow> nat \<Rightarrow> nat \<Rightarrow> nat list \<Rightarrow> 8 word list
   \<Rightarrow> fault + nat \<times> nat list \<times> 8 word list" where
  "rewind_body keys num_tracks cursor track cache outdated =
     (if \<not> num_tracks * 2 \<le> cursor - 1 then Inl AssertFailed
      else
        case TrackBackward cache (cursor - 1) track num_tracks of
          Inl e \<Rightarrow> Inl e
        | Inr track' \<Rightarrow>
            (case mark_outdated outdated track' of
               Inl e \<Rightarrow> Inl e
             | Inr outdated' \<Rightarrow>
                 (let penultimate = track'; last = track' + num_tracks in
                  if length cache \<le> last then Inl OutOfBounds
                  else if cache ! last \<noteq> cursor - 1 then Inl AssertFailed
                  else
                    (let cache1 = cache[last := cache ! penultimate] in
                     if length keys \<le> cache1 ! penultimate then Inl OutOfBounds
                     else
                       (let prev = previous (keys ! (cache1 ! penultimate)) in
                        if cache1 ! penultimate < prev then Inl AssertFailed
                        else Inr (track',
                                  cache1[penultimate := cache1 ! penultimate - prev],
                                  outdated'))))))"

text \<open>
  The loop that rewinds. Its condition reads the key before the cursor, so a cursor of 0
  or one beyond the keys leaves the array.
\<close>

function Rewind ::
  "real \<Rightarrow> 'a key_scheme list \<Rightarrow> nat \<Rightarrow> nat \<Rightarrow> nat \<Rightarrow> nat list \<Rightarrow> 8 word list
   \<Rightarrow> fault + nat \<times> nat \<times> nat list \<times> 8 word list" where
  "Rewind r keys num_tracks cursor track cache outdated =
     (if cursor = 0 \<or> length keys \<le> cursor - 1 then Inl OutOfBounds
      else if cursor - 1 < previous (keys ! (cursor - 1)) then Inl OutOfBounds
      else if r < ratio (keys ! ((cursor - 1) - previous (keys ! (cursor - 1)))) then
        (case rewind_body keys num_tracks cursor track cache outdated of
           Inl e \<Rightarrow> Inl e
         | Inr (track', cache', outdated') \<Rightarrow>
             Rewind r keys num_tracks (cursor - 1) track' cache' outdated')
      else Inr (cursor, track, cache, outdated))"
  by pat_completeness auto
termination
  by (relation "measure (\<lambda>(r, keys, num_tracks, cursor, track, cache, outdated). cursor)") auto

definition UpdateCacheCursor ::
  "real \<Rightarrow> nat \<Rightarrow> 'a key_scheme list \<Rightarrow> nat \<Rightarrow> nat list \<Rightarrow> 8 word list
   \<Rightarrow> fault + nat \<times> nat list \<times> 8 word list" where
  "UpdateCacheCursor r num_soa_tracks keys cursor0 cache0 outdated0 =
     (if \<not> 1 \<le> num_soa_tracks then Inl AssertFailed
      else
        (let num_tracks = num_soa_tracks * 4; num_keys = length keys in
         if \<not> num_tracks * 2 \<le> num_keys then Inl AssertFailed
         else
           case (if cursor0 = 0 then init_cursor num_soa_tracks cursor0 cache0 outdated0
                 else Inr (cursor0, cache0, outdated0)) of
             Inl e \<Rightarrow> Inl e
           | Inr (cursor1, cache1, outdated1) \<Rightarrow>
               if \<not> (num_tracks * 2 \<le> cursor1 \<and> cursor1 \<le> num_keys) then Inl AssertFailed
               else
                 (case Forward r keys num_tracks cursor1 0 cache1 outdated1 of
                    Inl e \<Rightarrow> Inl e
                  | Inr (cursor2, track2, cache2, outdated2) \<Rightarrow>
                      (case Rewind r keys num_tracks cursor2 track2 cache2 outdated2 of
                         Inl e \<Rightarrow> Inl e
                       | Inr (cursor3, track3, cache3, outdated3) \<Rightarrow>
                           if \<not> (num_tracks * 2 \<le> cursor3 \<and> cursor3 \<le> num_keys)
                           then Inl AssertFailed
                           else Inr (cursor3, cache3, outdated3)))))"

subsection \<open>The vector library\<close>

text \<open>
  The arithmetic of the vector library is outside the sampling code, and part of it
  (\<^verbatim>\<open>FromInt\<close>, \<^verbatim>\<open>HalfToFloat\<close>, the SoA \<^verbatim>\<open>Lerp\<close> and \<^verbatim>\<open>NLerpEst\<close>) is not among the
  sources at hand. It is a parameter of the model: the operations that act on one lane of
  a \<^verbatim>\<open>SimdFloat4\<close> are functions on 32-bit patterns, the constants are patterns. The
  bitwise operations \<^verbatim>\<open>And\<close>, \<^verbatim>\<open>Or\<close>, \<^verbatim>\<open>ShiftL\<close> and the masks are modelled exactly, from
  \<^verbatim>\<open>simd_math_ref-inl.h\<close>.
\<close>

record SoaFloat3 =
  f3x :: "f32 simd4"
  f3y :: "f32 simd4"
  f3z :: "f32 simd4"

record SoaQuaternion =
  qx :: "f32 simd4"
  qy :: "f32 simd4"
  qz :: "f32 simd4"
  qw :: "f32 simd4"

record SoaTransform =
  translation :: SoaFloat3
  rotation :: SoaQuaternion
  scale :: SoaFloat3

record maths =
  from_int :: "int \<Rightarrow> f32"
  half_to_float :: "int \<Rightarrow> f32"
  fmul :: "f32 \<Rightarrow> f32 \<Rightarrow> f32"
  fadd :: "f32 \<Rightarrow> f32 \<Rightarrow> f32"
  fsub :: "f32 \<Rightarrow> f32 \<Rightarrow> f32"
  fmax :: "f32 \<Rightarrow> f32 \<Rightarrow> f32"
  rsqrt_est :: "f32 \<Rightarrow> f32"
  kInt2Float :: f32
  kEpsilon :: f32
  kOne :: f32
  float_sub :: "real \<Rightarrow> real \<Rightarrow> real"
  ratio_sub :: "real simd4 \<Rightarrow> real simd4 \<Rightarrow> real simd4"
  ratio_mul :: "real simd4 \<Rightarrow> real simd4 \<Rightarrow> real simd4"
  RcpEst :: "real simd4 \<Rightarrow> real simd4"
  Lerp :: "SoaFloat3 \<Rightarrow> SoaFloat3 \<Rightarrow> real simd4 \<Rightarrow> SoaFloat3"
  NLerpEst :: "SoaQuaternion \<Rightarrow> SoaQuaternion \<Rightarrow> real simd4 \<Rightarrow> SoaQuaternion"

definition map4 :: "('a \<Rightarrow> 'b) \<Rightarrow> 'a simd4 \<Rightarrow> 'b simd4" where
  "map4 f v = (case v of (a, b, c, d) \<Rightarrow> (f a, f b, f c, f d))"

definition zip4 :: "('a \<Rightarrow> 'b \<Rightarrow> 'c) \<Rightarrow> 'a simd4 \<Rightarrow> 'b simd4 \<Rightarrow> 'c simd4" where
  "zip4 f v w =
     (case v of (a, b, c, d) \<Rightarrow> case w of (a', b', c', d') \<Rightarrow> (f a a', f b b', f c c', f d d'))"

definition Load1 :: "'a \<Rightarrow> 'a simd4" where
  "Load1 a = (a, a, a, a)"

definition lane :: "'a simd4 \<Rightarrow> nat \<Rightarrow> 'a" where
  "lane v j = (case v of (a, b, c, d) \<Rightarrow>
                 if j = 0 then a else if j = 1 then b else if j = 2 then c else d)"

definition set_lane :: "'a simd4 \<Rightarrow> nat \<Rightarrow> 'a \<Rightarrow> 'a simd4" where
  "set_lane v j e = (case v of (a, b, c, d) \<Rightarrow>
                 if j = 0 then (e, b, c, d) else if j = 1 then (a, e, c, d)
                 else if j = 2 then (a, b, e, d) else (a, b, c, e))"

definition mask_f000 :: "32 word simd4" where "mask_f000 = (0xffffffff, 0, 0, 0)"
definition mask_0f00 :: "32 word simd4" where "mask_0f00 = (0, 0xffffffff, 0, 0)"
definition mask_00f0 :: "32 word simd4" where "mask_00f0 = (0, 0, 0xffffffff, 0)"
definition mask_000f :: "32 word simd4" where "mask_000f = (0, 0, 0, 0xffffffff)"

definition And4 :: "f32 simd4 \<Rightarrow> 32 word simd4 \<Rightarrow> f32 simd4" where
  "And4 a b = zip4 (\<lambda>u v. u AND v) a b"

definition Or4 :: "f32 simd4 \<Rightarrow> 32 word simd4 \<Rightarrow> f32 simd4" where
  "Or4 a b = zip4 (\<lambda>u v. u OR v) a b"

definition ShiftL :: "32 word simd4 \<Rightarrow> nat \<Rightarrow> 32 word simd4" where
  "ShiftL v bits = map4 (push_bit bits) v"

subsection \<open>Decompression\<close>

definition DecompressFloat3 ::
  "maths \<Rightarrow> Float3Key \<Rightarrow> Float3Key \<Rightarrow> Float3Key \<Rightarrow> Float3Key \<Rightarrow> SoaFloat3" where
  "DecompressFloat3 m k0 k1 k2 k3 =
     \<lparr> f3x = map4 (half_to_float m)
               (uint (at3 (value3 k0) 0), uint (at3 (value3 k1) 0),
                uint (at3 (value3 k2) 0), uint (at3 (value3 k3) 0)),
       f3y = map4 (half_to_float m)
               (uint (at3 (value3 k0) 1), uint (at3 (value3 k1) 1),
                uint (at3 (value3 k2) 1), uint (at3 (value3 k3) 1)),
       f3z = map4 (half_to_float m)
               (uint (at3 (value3 k0) 2), uint (at3 (value3 k1) 2),
                uint (at3 (value3 k2) 2), uint (at3 (value3 k3) 2)) \<rparr>"

definition kCpntMapping :: "nat list list" where
  "kCpntMapping = [[0, 0, 1, 2], [0, 0, 1, 2], [0, 1, 0, 2], [0, 1, 2, 0]]"

definition DecompressQuaternion ::
  "maths \<Rightarrow> QuaternionKey \<Rightarrow> QuaternionKey \<Rightarrow> QuaternionKey \<Rightarrow> QuaternionKey
   \<Rightarrow> SoaQuaternion" where
  "DecompressQuaternion m k0 k1 k2 k3 =
     (let m0 = kCpntMapping ! unat (largest k0);
          m1 = kCpntMapping ! unat (largest k1);
          m2 = kCpntMapping ! unat (largest k2);
          m3 = kCpntMapping ! unat (largest k3);
          cmp_keys0 = map (\<lambda>c. (sint (at3 (qvalue k0) (m0 ! c)), sint (at3 (qvalue k1) (m1 ! c)),
                                  sint (at3 (qvalue k2) (m2 ! c)), sint (at3 (qvalue k3) (m3 ! c))))
                          [0, 1, 2, 3];
          cmp_keys1 = cmp_keys0[unat (largest k0) := set_lane (cmp_keys0 ! unat (largest k0)) 0 0];
          cmp_keys2 = cmp_keys1[unat (largest k1) := set_lane (cmp_keys1 ! unat (largest k1)) 1 0];
          cmp_keys3 = cmp_keys2[unat (largest k2) := set_lane (cmp_keys2 ! unat (largest k2)) 2 0];
          cmp_keys = cmp_keys3[unat (largest k3) := set_lane (cmp_keys3 ! unat (largest k3)) 3 0];
          cpnt0 = map (\<lambda>row. zip4 (fmul m) (Load1 (kInt2Float m)) (map4 (from_int m) row)) cmp_keys;
          sq = (\<lambda>v. zip4 (fmul m) v v);
          dot = zip4 (fadd m) (zip4 (fadd m) (zip4 (fadd m) (sq (cpnt0 ! 0)) (sq (cpnt0 ! 1)))
                                             (sq (cpnt0 ! 2)))
                              (sq (cpnt0 ! 3));
          ww0 = zip4 (fmax m) (Load1 (kEpsilon m)) (zip4 (fsub m) (Load1 (kOne m)) dot);
          w0 = zip4 (fmul m) ww0 (map4 (rsqrt_est m) ww0);
          sgn4 = ShiftL (map4 (\<lambda>b. if b then 1 else 0) (sign k0, sign k1, sign k2, sign k3)) 31;
          restored = Or4 w0 sgn4;
          cpnt1 = cpnt0[unat (largest k0) := Or4 (cpnt0 ! unat (largest k0)) (And4 restored mask_f000)];
          cpnt2 = cpnt1[unat (largest k1) := Or4 (cpnt1 ! unat (largest k1)) (And4 restored mask_0f00)];
          cpnt3 = cpnt2[unat (largest k2) := Or4 (cpnt2 ! unat (largest k2)) (And4 restored mask_00f0)];
          cpnt = cpnt3[unat (largest k3) := Or4 (cpnt3 ! unat (largest k3)) (And4 restored mask_000f)]
      in \<lparr> qx = cpnt ! 0, qy = cpnt ! 1, qz = cpnt ! 2, qw = cpnt ! 3 \<rparr>)"

subsection \<open>UpdateInterpKeyframes\<close>

text \<open>
  \<^verbatim>\<open>InterpSoaFloat3\<close> and \<^verbatim>\<open>InterpSoaQuaternion\<close>: the two-element arrays \<^verbatim>\<open>ratio[2]\<close> and
  \<^verbatim>\<open>value[2]\<close> are pairs.
\<close>

record 'v InterpSoa =
  interp_ratio :: "real simd4 \<times> real simd4"
  interp_value :: "'v \<times> 'v"

text \<open>The four reads \<^verbatim>\<open>_keys[_cache[base + 0]]\<close> to \<^verbatim>\<open>_keys[_cache[base + 3]]\<close>.\<close>

definition load_keys :: "'k list \<Rightarrow> nat list \<Rightarrow> nat \<Rightarrow> fault + 'k simd4" where
  "load_keys keys cache base =
     (if length cache \<le> base + 3 then Inl OutOfBounds
      else if length keys \<le> cache ! (base + 0) \<or> length keys \<le> cache ! (base + 1)
              \<or> length keys \<le> cache ! (base + 2) \<or> length keys \<le> cache ! (base + 3)
      then Inl OutOfBounds
      else Inr (keys ! (cache ! (base + 0)), keys ! (cache ! (base + 1)),
                keys ! (cache ! (base + 2)), keys ! (cache ! (base + 3))))"

text \<open>What the inner loop does for a group \<open>i\<close> whose bit is set.\<close>

definition update_group ::
  "nat \<Rightarrow> 'a key_scheme list \<Rightarrow> nat list
   \<Rightarrow> ('a key_scheme \<Rightarrow> 'a key_scheme \<Rightarrow> 'a key_scheme \<Rightarrow> 'a key_scheme \<Rightarrow> 'v)
   \<Rightarrow> 'v InterpSoa list \<Rightarrow> nat \<Rightarrow> fault + 'v InterpSoa list" where
  "update_group num_soa_tracks keys cache decompress interp_keys i =
     (case load_keys keys cache (i * 4) of
        Inl e \<Rightarrow> Inl e
      | Inr (k00, k10, k20, k30) \<Rightarrow>
          if length interp_keys \<le> i then Inl OutOfBounds
          else
            (case load_keys keys cache ((i + num_soa_tracks) * 4) of
               Inl e \<Rightarrow> Inl e
             | Inr (k01, k11, k21, k31) \<Rightarrow>
                 Inr (interp_keys[i :=
                   \<lparr> interp_ratio = ((ratio k00, ratio k10, ratio k20, ratio k30),
                                     (ratio k01, ratio k11, ratio k21, ratio k31)),
                     interp_value = (decompress k00 k10 k20 k30,
                                     decompress k01 k11 k21 k31) \<rparr>])))"

text \<open>The inner loop \<^verbatim>\<open>for (int i = j * 8; outdated; ++i, outdated >>= 1)\<close>.\<close>

function update_flags ::
  "nat \<Rightarrow> 'a key_scheme list \<Rightarrow> nat list
   \<Rightarrow> ('a key_scheme \<Rightarrow> 'a key_scheme \<Rightarrow> 'a key_scheme \<Rightarrow> 'a key_scheme \<Rightarrow> 'v)
   \<Rightarrow> nat \<Rightarrow> 8 word \<Rightarrow> 'v InterpSoa list \<Rightarrow> fault + 'v InterpSoa list" where
  "update_flags num_soa_tracks keys cache decompress i outdated interp_keys =
     (if outdated = 0 then Inr interp_keys
      else if outdated AND 1 = 0 then
        update_flags num_soa_tracks keys cache decompress (i + 1) (drop_bit 1 outdated) interp_keys
      else
        (case update_group num_soa_tracks keys cache decompress interp_keys i of
           Inl e \<Rightarrow> Inl e
         | Inr interp_keys' \<Rightarrow>
             update_flags num_soa_tracks keys cache decompress (i + 1) (drop_bit 1 outdated)
               interp_keys'))"
  by pat_completeness auto
termination
proof (relation "measure (\<lambda>(n, keys, cache, decompress, i, outdated, interp_keys). unat outdated)")
  show "wf (measure (\<lambda>(n :: nat, keys :: 'a key_scheme list, cache :: nat list,
              decompress :: 'a key_scheme \<Rightarrow> 'a key_scheme \<Rightarrow> 'a key_scheme \<Rightarrow> 'a key_scheme \<Rightarrow> 'v,
              i :: nat, outdated :: 8 word, interp_keys :: 'v InterpSoa list). unat outdated))"
    by simp
qed (auto simp: unat_drop_bit_eq drop_bit_eq_div unat_gt_0 unat_div)

text \<open>The outer loop \<^verbatim>\<open>for (int j = 0; j < num_outdated_flags; ++j)\<close>.\<close>

function update_bytes ::
  "nat \<Rightarrow> 'a key_scheme list \<Rightarrow> nat list
   \<Rightarrow> ('a key_scheme \<Rightarrow> 'a key_scheme \<Rightarrow> 'a key_scheme \<Rightarrow> 'a key_scheme \<Rightarrow> 'v)
   \<Rightarrow> nat \<Rightarrow> 8 word list \<Rightarrow> 'v InterpSoa list \<Rightarrow> fault + 8 word list \<times> 'v InterpSoa list" where
  "update_bytes num_soa_tracks keys cache decompress j outdated interp_keys =
     (if j < (num_soa_tracks + 7) div 8 then
        (if length outdated \<le> j then Inl OutOfBounds
         else
           case update_flags num_soa_tracks keys cache decompress (j * 8) (outdated ! j)
                  interp_keys of
             Inl e \<Rightarrow> Inl e
           | Inr interp_keys' \<Rightarrow>
               update_bytes num_soa_tracks keys cache decompress (j + 1) (outdated[j := 0])
                 interp_keys')
      else Inr (outdated, interp_keys))"
  by pat_completeness auto
termination
  by (relation "measure (\<lambda>(n, keys, cache, decompress, j, outdated, interp_keys).
                   (n + 7) div 8 - j)") auto

definition UpdateInterpKeyframes ::
  "nat \<Rightarrow> 'a key_scheme list \<Rightarrow> nat list \<Rightarrow> 8 word list \<Rightarrow> 'v InterpSoa list
   \<Rightarrow> ('a key_scheme \<Rightarrow> 'a key_scheme \<Rightarrow> 'a key_scheme \<Rightarrow> 'a key_scheme \<Rightarrow> 'v)
   \<Rightarrow> fault + 8 word list \<times> 'v InterpSoa list" where
  "UpdateInterpKeyframes num_soa_tracks keys cache outdated interp_keys decompress =
     update_bytes num_soa_tracks keys cache decompress 0 outdated interp_keys"

subsection \<open>Interpolates\<close>

text \<open>The body of the loop of \<^verbatim>\<open>Interpolates\<close>: the transform of one track group.\<close>

definition interpolate_group ::
  "maths \<Rightarrow> real \<Rightarrow> SoaFloat3 InterpSoa \<Rightarrow> SoaQuaternion InterpSoa \<Rightarrow> SoaFloat3 InterpSoa
   \<Rightarrow> SoaTransform" where
  "interpolate_group m anim_ratio t r s =
     (let anim = Load1 anim_ratio;
          interp_t_ratio =
            ratio_mul m (ratio_sub m anim (fst (interp_ratio t)))
              (RcpEst m (ratio_sub m (snd (interp_ratio t)) (fst (interp_ratio t))));
          interp_r_ratio =
            ratio_mul m (ratio_sub m anim (fst (interp_ratio r)))
              (RcpEst m (ratio_sub m (snd (interp_ratio r)) (fst (interp_ratio r))));
          interp_s_ratio =
            ratio_mul m (ratio_sub m anim (fst (interp_ratio s)))
              (RcpEst m (ratio_sub m (snd (interp_ratio s)) (fst (interp_ratio s))))
      in \<lparr> translation = Lerp m (fst (interp_value t)) (snd (interp_value t)) interp_t_ratio,
           rotation = NLerpEst m (fst (interp_value r)) (snd (interp_value r)) interp_r_ratio,
           scale = Lerp m (fst (interp_value s)) (snd (interp_value s)) interp_s_ratio \<rparr>)"

function Interpolates ::
  "maths \<Rightarrow> real \<Rightarrow> nat \<Rightarrow> SoaFloat3 InterpSoa list \<Rightarrow> SoaQuaternion InterpSoa list
   \<Rightarrow> SoaFloat3 InterpSoa list \<Rightarrow> nat \<Rightarrow> SoaTransform list \<Rightarrow> fault + SoaTransform list" where
  "Interpolates m anim_ratio num_soa_tracks p_translations p_rotations p_scales i output =
     (if i < num_soa_tracks then
        (if length p_translations \<le> i \<or> length p_rotations \<le> i \<or> length p_scales \<le> i
            \<or> length output \<le> i
         then Inl OutOfBounds
         else Interpolates m anim_ratio num_soa_tracks p_translations p_rotations p_scales (i + 1)
                (output[i := interpolate_group m anim_ratio
                                (p_translations ! i) (p_rotations ! i) (p_scales ! i)]))
      else Inr output)"
  by pat_completeness auto
termination
  by (relation "measure (\<lambda>(m, anim_ratio, num_soa_tracks, p_translations, p_rotations, p_scales, i,
                   output). num_soa_tracks - i)") auto

subsection \<open>The animation, the context and the job\<close>

text \<open>
  The class \<^verbatim>\<open>Animation\<close> is declared outside the sources at hand; the model keeps what
  the sampling code asks of it. \<^verbatim>\<open>Context::Step\<close> compares the address of the animation
  with the pointer it stored, so an animation carries its \<open>address\<close>.
\<close>

record Animation =
  address :: nat
  num_soa_tracks :: nat
  anim_translations :: "Float3Key list"
  anim_rotations :: "QuaternionKey list"
  anim_scales :: "Float3Key list"

text \<open>
  \<^verbatim>\<open>SamplingJob::Context\<close>. The members lose the trailing underscore of their
  names (\<open>translation_cursor\<close> is \<^verbatim>\<open>translation_cursor_\<close>; \<open>ctx_animation\<close> and \<open>ctx_ratio\<close>
  are \<^verbatim>\<open>animation_\<close> and \<^verbatim>\<open>ratio_\<close>). The pointer \<^verbatim>\<open>animation_\<close> is \<open>None\<close> when null and the address
  of an animation otherwise. The arrays that \<^verbatim>\<open>Resize\<close> carves out of one allocation are
  separate lists.
\<close>

record Context =
  max_soa_tracks :: nat
  ctx_animation :: "nat option"
  ctx_ratio :: real
  translation_cursor :: nat
  rotation_cursor :: nat
  scale_cursor :: nat
  translation_cache :: "nat list"
  rotation_cache :: "nat list"
  scale_cache :: "nat list"
  outdated_translations :: "8 word list"
  outdated_rotations :: "8 word list"
  outdated_scales :: "8 word list"
  soa_translations :: "SoaFloat3 InterpSoa list"
  soa_rotations :: "SoaQuaternion InterpSoa list"
  soa_scales :: "SoaFloat3 InterpSoa list"

text \<open>
  The constant \<^verbatim>\<open>.05f\<close> is the single-precision number nearest to 0.05, which is
  13421773 / 2^28. The subtraction \<^verbatim>\<open>ratio_ - _ratio\<close> is the rounded one of the machine,
  \<open>float_sub\<close>.
\<close>

definition kRestartOverhead :: real where
  "kRestartOverhead = 13421773 / 268435456"

definition Step :: "maths \<Rightarrow> Context \<Rightarrow> Animation \<Rightarrow> real \<Rightarrow> Context" where
  "Step m ctx anim r =
     (let changed = (ctx_animation ctx \<noteq> Some (address anim));
          restart = (kRestartOverhead < ctx_ratio ctx \<and> r < float_sub m (ctx_ratio ctx) r);
          ctx' = (if changed \<or> restart
                  then ctx\<lparr> ctx_animation := Some (address anim),
                            translation_cursor := 0,
                            rotation_cursor := 0,
                            scale_cursor := 0 \<rparr>
                  else ctx)
      in ctx'\<lparr> ctx_ratio := r \<rparr>)"

definition Invalidate :: "Context \<Rightarrow> Context" where
  "Invalidate ctx =
     ctx\<lparr> ctx_animation := None, ctx_ratio := 0,
          translation_cursor := 0, rotation_cursor := 0, scale_cursor := 0 \<rparr>"

text \<open>
  \<^verbatim>\<open>SamplingJob\<close>: the pointers \<open>job_animation\<close> and \<open>job_context\<close> may be null; \<open>job_output\<close> is
  of transforms that the caller owns.
\<close>

record SamplingJob =
  job_ratio :: real
  job_animation :: "Animation option"
  job_context :: "Context option"
  job_output :: "SoaTransform list"

definition Validate :: "SamplingJob \<Rightarrow> bool" where
  "Validate job =
     (case (job_animation job, job_context job) of
        (Some anim, Some ctx) \<Rightarrow>
          job_output job \<noteq> []
          \<and> num_soa_tracks anim \<le> length (job_output job)
          \<and> num_soa_tracks anim \<le> max_soa_tracks ctx
      | _ \<Rightarrow> False)"

text \<open>
  Modelled from the spec: \<^verbatim>\<open>math::Clamp\<close> of \<^verbatim>\<open>math_ex.h\<close>, which is not among the sources
  at hand. The spec has \<^verbatim>\<open>Run\<close> clamp the ratio to the interval from 0 to 1.
\<close>

definition Clamp :: "real \<Rightarrow> real \<Rightarrow> real \<Rightarrow> real" where
  "Clamp a v b = max a (min v b)"

text \<open>
  The part of \<^verbatim>\<open>Run\<close> after the two early returns: the three channels in turn, then the
  interpolation.
\<close>

definition sample ::
  "maths \<Rightarrow> Animation \<Rightarrow> real \<Rightarrow> Context \<Rightarrow> SoaTransform list
   \<Rightarrow> fault + SoaTransform list \<times> Context" where
  "sample m anim anim_ratio ctx0 out =
     (let n = num_soa_tracks anim in
      case UpdateCacheCursor anim_ratio n (anim_translations anim) (translation_cursor ctx0)
             (translation_cache ctx0) (outdated_translations ctx0) of
        Inl e \<Rightarrow> Inl e
      | Inr (tc, tcache, tout) \<Rightarrow>
      (case UpdateInterpKeyframes n (anim_translations anim) tcache tout (soa_translations ctx0)
              (DecompressFloat3 m) of
        Inl e \<Rightarrow> Inl e
      | Inr (tout', tsoa) \<Rightarrow>
      (case UpdateCacheCursor anim_ratio n (anim_rotations anim) (rotation_cursor ctx0)
              (rotation_cache ctx0) (outdated_rotations ctx0) of
        Inl e \<Rightarrow> Inl e
      | Inr (rc, rcache, rout) \<Rightarrow>
      (case UpdateInterpKeyframes n (anim_rotations anim) rcache rout (soa_rotations ctx0)
              (DecompressQuaternion m) of
        Inl e \<Rightarrow> Inl e
      | Inr (rout', rsoa) \<Rightarrow>
      (case UpdateCacheCursor anim_ratio n (anim_scales anim) (scale_cursor ctx0)
              (scale_cache ctx0) (outdated_scales ctx0) of
        Inl e \<Rightarrow> Inl e
      | Inr (sc, scache, sout) \<Rightarrow>
      (case UpdateInterpKeyframes n (anim_scales anim) scache sout (soa_scales ctx0)
              (DecompressFloat3 m) of
        Inl e \<Rightarrow> Inl e
      | Inr (sout', ssoa) \<Rightarrow>
      (case Interpolates m anim_ratio n tsoa rsoa ssoa 0 out of
        Inl e \<Rightarrow> Inl e
      | Inr out' \<Rightarrow>
          Inr (out',
               ctx0\<lparr> translation_cursor := tc, translation_cache := tcache,
                     outdated_translations := tout', soa_translations := tsoa,
                     rotation_cursor := rc, rotation_cache := rcache,
                     outdated_rotations := rout', soa_rotations := rsoa,
                     scale_cursor := sc, scale_cache := scache,
                     outdated_scales := sout', soa_scales := ssoa \<rparr>))))))))"

text \<open>
  \<^verbatim>\<open>SamplingJob::Run\<close> returns its boolean and leaves behind the output span and the
  context; the model returns the three.
\<close>

definition Run ::
  "maths \<Rightarrow> SamplingJob \<Rightarrow> fault + bool \<times> SoaTransform list \<times> Context option" where
  "Run m job =
     (if \<not> Validate job then Inr (False, job_output job, job_context job)
      else
        case (job_animation job, job_context job) of
          (Some anim, Some ctx) \<Rightarrow>
            if num_soa_tracks anim = 0 then Inr (True, job_output job, job_context job)
            else
              (let anim_ratio = Clamp 0 (job_ratio job) 1 in
               if \<not> num_soa_tracks anim \<le> max_soa_tracks ctx then Inl AssertFailed
               else
                 case sample m anim anim_ratio (Step m ctx anim anim_ratio) (job_output job) of
                   Inl e \<Rightarrow> Inl e
                 | Inr (out', ctx') \<Rightarrow> Inr (True, out', Some ctx'))
        | _ \<Rightarrow> Inr (False, job_output job, job_context job))"

section \<open>Notions used by the statements\<close>

text \<open>
  The recursion equations of the loops are applied one step at a time in the proofs.
\<close>

declare TrackForward_scan1.simps [simp del] TrackForward_scan2.simps [simp del] TrackBackward_scan1.simps [simp del] TrackBackward_scan2.simps [simp del]

declare init_cache.simps [simp del] init_outdated.simps [simp del] Forward.simps [simp del] Rewind.simps [simp del]

declare update_flags.simps [simp del] update_bytes.simps [simp del] Interpolates.simps [simp del]

subsection \<open>Dirty bits and operands\<close>

text \<open>
  The dirty bit of track group \<open>i\<close> is bit \<open>i mod 8\<close> of byte \<open>i div 8\<close>. \<open>decode_group\<close> is
  the pair of operands that the bracket indices of group \<open>i\<close> determine, and \<open>group_ok\<close>
  says that the reads and the write for group \<open>i\<close> stay inside the arrays.
\<close>

definition dirty :: "8 word list \<Rightarrow> nat \<Rightarrow> bool" where
  "dirty outdated i = (i div 8 < length outdated \<and> bit (outdated ! (i div 8)) (i mod 8))"

definition decode_group ::
  "nat \<Rightarrow> 'a key_scheme list \<Rightarrow> nat list
   \<Rightarrow> ('a key_scheme \<Rightarrow> 'a key_scheme \<Rightarrow> 'a key_scheme \<Rightarrow> 'a key_scheme \<Rightarrow> 'v)
   \<Rightarrow> nat \<Rightarrow> 'v InterpSoa" where
  "decode_group n keys cache decompress i =
     (let k00 = keys ! (cache ! (i * 4 + 0)); k10 = keys ! (cache ! (i * 4 + 1));
          k20 = keys ! (cache ! (i * 4 + 2)); k30 = keys ! (cache ! (i * 4 + 3));
          k01 = keys ! (cache ! ((i + n) * 4 + 0)); k11 = keys ! (cache ! ((i + n) * 4 + 1));
          k21 = keys ! (cache ! ((i + n) * 4 + 2)); k31 = keys ! (cache ! ((i + n) * 4 + 3))
      in \<lparr> interp_ratio = ((ratio k00, ratio k10, ratio k20, ratio k30),
                          (ratio k01, ratio k11, ratio k21, ratio k31)),
           interp_value = (decompress k00 k10 k20 k30, decompress k01 k11 k21 k31) \<rparr>)"

definition group_ok :: "nat \<Rightarrow> 'k list \<Rightarrow> nat list \<Rightarrow> 'w list \<Rightarrow> nat \<Rightarrow> bool" where
  "group_ok n keys cache interp_keys i =
     (i < length interp_keys \<and> (i + n) * 4 + 3 < length cache
      \<and> list_all (\<lambda>k. cache ! (i * 4 + k) < length keys
                       \<and> cache ! ((i + n) * 4 + k) < length keys) [0, 1, 2, 3])"

subsection \<open>Clips, brackets and the cursor\<close>

text \<open>
  \<open>pred_key keys i\<close> is the position that the back-distance of key \<open>i\<close> points to: the
  key before \<open>i\<close> on the same track.

  \<open>replay keys num_tracks c\<close> is the bracket array obtained by seeding it with the first
  \<open>2 * num_tracks\<close> entries and then consuming the entries up to \<open>c\<close> one after the other,
  each on the track whose last bracket is its predecessor (\<open>find_track\<close> looks that track
  up by a plain scan from track 0).

  \<open>clip_layout n keys\<close> says how the keys of a channel with \<open>n\<close> track groups are laid
  out: the first key of each of the \<open>4 * n\<close> tracks has ratio 0, the second keys follow
  with back-distance \<open>4 * n\<close>, every later key points back to a key from the second one
  on, no two keys point back to the same key, and a key that no key points back to (the
  last key of its track) has ratio 1. \<open>sorted_by_predecessor\<close> is the order that the loop
  of \<open>UpdateCacheCursor\<close> relies on: from the second keys on, the ratios of the
  predecessors ascend. \<open>clip_ok\<close> is both.

  \<open>brackets keys N c cache\<close> describes a bracket array that reflects the first \<open>c\<close>
  entries, \<open>coherent\<close> says that the operands of every group whose dirty bit is clear are
  the decoded brackets, and \<open>cursor_inv\<close> collects what holds of a channel between two
  calls. \<open>is_stop r keys n c\<close> characterises the cursor that belongs to the ratio \<open>r\<close>.
\<close>

definition pred_key :: "'a key_scheme list \<Rightarrow> nat \<Rightarrow> nat" where
  "pred_key keys i = i - previous (keys ! i)"

definition find_track :: "nat list \<Rightarrow> nat \<Rightarrow> nat \<Rightarrow> nat" where
  "find_track cache num_tracks target =
     length (takeWhile (\<lambda>t. cache ! (t + num_tracks) \<noteq> target) [0..<num_tracks])"

definition consume :: "'a key_scheme list \<Rightarrow> nat \<Rightarrow> nat list \<Rightarrow> nat \<Rightarrow> nat list" where
  "consume keys num_tracks cache c =
     (let t = find_track cache num_tracks (pred_key keys c)
      in cache[t := cache ! (t + num_tracks), t + num_tracks := c])"

definition replay :: "'a key_scheme list \<Rightarrow> nat \<Rightarrow> nat \<Rightarrow> nat list" where
  "replay keys num_tracks c =
     foldl (consume keys num_tracks) [0..<num_tracks * 2] [num_tracks * 2..<c]"

definition clip_layout :: "nat \<Rightarrow> 'a key_scheme list \<Rightarrow> bool" where
  "clip_layout n keys \<longleftrightarrow>
     1 \<le> n \<and> n * 4 * 2 \<le> length keys
     \<and> (\<forall>t \<in> set [0..<n * 4]. ratio (keys ! t) = 0)
     \<and> (\<forall>i \<in> set [n * 4..<n * 4 * 2]. previous (keys ! i) = n * 4)
     \<and> (\<forall>i \<in> set [n * 4 * 2..<length keys].
           1 \<le> previous (keys ! i) \<and> previous (keys ! i) + n * 4 \<le> i)
     \<and> (\<forall>i \<in> set [n * 4..<length keys]. \<forall>j \<in> set [i + 1..<length keys].
           pred_key keys i \<noteq> pred_key keys j)
     \<and> (\<forall>i \<in> set [n * 4..<length keys].
           (\<forall>j \<in> set [i + 1..<length keys]. pred_key keys j \<noteq> i) \<longrightarrow> ratio (keys ! i) = 1)"

definition sorted_by_predecessor :: "nat \<Rightarrow> 'a key_scheme list \<Rightarrow> bool" where
  "sorted_by_predecessor n keys \<longleftrightarrow>
     (\<forall>i \<in> set [n * 4..<length keys]. \<forall>j \<in> set [i + 1..<length keys].
        ratio (keys ! pred_key keys i) \<le> ratio (keys ! pred_key keys j))"

definition clip_ok :: "nat \<Rightarrow> 'a key_scheme list \<Rightarrow> bool" where
  "clip_ok n keys \<longleftrightarrow> clip_layout n keys \<and> sorted_by_predecessor n keys"

definition brackets :: "'a key_scheme list \<Rightarrow> nat \<Rightarrow> nat \<Rightarrow> nat list \<Rightarrow> bool" where
  "brackets keys N c cache \<longleftrightarrow>
     N * 2 \<le> length cache
     \<and> (\<forall>t < N. N \<le> cache ! (t + N) \<and> cache ! (t + N) < c
                \<and> cache ! t = pred_key keys (cache ! (t + N)))
     \<and> (\<forall>t < N. \<forall>j. N * 2 \<le> j \<and> j < c \<longrightarrow> pred_key keys j \<noteq> cache ! (t + N))
     \<and> (\<forall>i. N \<le> i \<and> i < c \<and> (\<forall>j. N * 2 \<le> j \<and> j < c \<longrightarrow> pred_key keys j \<noteq> i)
            \<longrightarrow> (\<exists>t < N. cache ! (t + N) = i))
     \<and> (\<forall>t < N. \<forall>u < N. cache ! (t + N) = cache ! (u + N) \<longrightarrow> t = u)"

definition coherent ::
  "nat \<Rightarrow> 'a key_scheme list
   \<Rightarrow> ('a key_scheme \<Rightarrow> 'a key_scheme \<Rightarrow> 'a key_scheme \<Rightarrow> 'a key_scheme \<Rightarrow> 'v)
   \<Rightarrow> nat list \<Rightarrow> 8 word list \<Rightarrow> 'v InterpSoa list \<Rightarrow> bool" where
  "coherent n keys decompress cache outdated interp_keys \<longleftrightarrow>
     (\<forall>g < n. \<not> dirty outdated g \<longrightarrow> interp_keys ! g = decode_group n keys cache decompress g)"

definition cursor_inv ::
  "nat \<Rightarrow> 'a key_scheme list
   \<Rightarrow> ('a key_scheme \<Rightarrow> 'a key_scheme \<Rightarrow> 'a key_scheme \<Rightarrow> 'a key_scheme \<Rightarrow> 'v)
   \<Rightarrow> 'v InterpSoa list \<Rightarrow> nat \<Rightarrow> nat list \<Rightarrow> 8 word list \<Rightarrow> bool" where
  "cursor_inv n keys decompress interp_keys c cache outdated \<longleftrightarrow>
     n * 4 * 2 \<le> c \<and> c \<le> length keys \<and> n * 4 * 2 \<le> length cache
     \<and> take (n * 4 * 2) cache = replay keys (n * 4) c
     \<and> (n + 7) div 8 \<le> length outdated
     \<and> coherent n keys decompress cache outdated interp_keys"

definition is_stop :: "real \<Rightarrow> 'a key_scheme list \<Rightarrow> nat \<Rightarrow> nat \<Rightarrow> bool" where
  "is_stop r keys n c \<longleftrightarrow>
     n * 4 * 2 \<le> c \<and> c \<le> length keys
     \<and> (\<forall>j \<in> set [n * 4 * 2..<c]. ratio (keys ! pred_key keys j) \<le> r)
     \<and> (c = length keys \<or> r < ratio (keys ! pred_key keys c))"

text \<open>
  \<open>cursor_ok\<close> is the part of \<open>cursor_inv\<close> that does not involve the operands: the cursor
  lies between the seeded entries and the end of the stream, and the bracket array is the
  one that consuming the entries before the cursor produces.
\<close>

definition cursor_ok :: "nat \<Rightarrow> 'a key_scheme list \<Rightarrow> nat \<Rightarrow> nat list \<Rightarrow> 8 word list \<Rightarrow> bool" where
  "cursor_ok n keys c cache outdated \<longleftrightarrow>
     n * 4 * 2 \<le> c \<and> c \<le> length keys \<and> n * 4 * 2 \<le> length cache
     \<and> take (n * 4 * 2) cache = replay keys (n * 4) c
     \<and> (n + 7) div 8 \<le> length outdated"

section \<open>Concrete inputs\<close>

text \<open>
  An instance of the vector library for evaluating the model: patterns are combined with
  the arithmetic of machine words, ratios with the arithmetic of the reals.
\<close>

definition maths0 :: maths where
  "maths0 =
     \<lparr> from_int = word_of_int, half_to_float = word_of_int,
       fmul = (\<lambda>a b. a * b), fadd = (\<lambda>a b. a + b), fsub = (\<lambda>a b. a - b), fmax = max,
       rsqrt_est = (\<lambda>a. a), kInt2Float = 1, kEpsilon = 1, kOne = 1,
       float_sub = (\<lambda>a b. a - b),
       ratio_sub = zip4 (\<lambda>a b. a - b), ratio_mul = zip4 (\<lambda>a b. a * b), RcpEst = map4 inverse,
       Lerp = (\<lambda>a b t. b), NLerpEst = (\<lambda>a b t. b) \<rparr>"

text \<open>An animation without tracks and the context that \<^verbatim>\<open>Context()\<close> constructs.\<close>

definition anim_empty :: Animation where
  "anim_empty =
     \<lparr> address = 1, num_soa_tracks = 0,
       anim_translations = [], anim_rotations = [], anim_scales = [] \<rparr>"

definition ctx_empty :: Context where
  "ctx_empty =
     \<lparr> max_soa_tracks = 0, ctx_animation = None, ctx_ratio = 0,
       translation_cursor = 0, rotation_cursor = 0, scale_cursor = 0,
       translation_cache = [], rotation_cache = [], scale_cache = [],
       outdated_translations = [], outdated_rotations = [], outdated_scales = [],
       soa_translations = [], soa_rotations = [], soa_scales = [] \<rparr>"

definition transform0 :: SoaTransform where
  "transform0 =
     \<lparr> translation = \<lparr> f3x = Load1 0, f3y = Load1 0, f3z = Load1 0 \<rparr>,
       rotation = \<lparr> qx = Load1 0, qy = Load1 0, qz = Load1 0, qw = Load1 0 \<rparr>,
       scale = \<lparr> f3x = Load1 0, f3y = Load1 0, f3z = Load1 0 \<rparr> \<rparr>"

text \<open>A context that was last stepped at ratio 1/2 against the animation at address 1.\<close>

definition ctx_half :: Context where
  "ctx_half =
     ctx_empty\<lparr> ctx_animation := Some 1, ctx_ratio := 1 / 2,
                translation_cursor := 8, rotation_cursor := 9, scale_cursor := 10 \<rparr>"

text \<open>Jobs on the animation without tracks: with an empty output span, and with one transform.\<close>

definition job_empty_output :: SamplingJob where
  "job_empty_output =
     \<lparr> job_ratio = 0, job_animation = Some anim_empty, job_context = Some ctx_empty,
       job_output = [] \<rparr>"

definition job_no_track :: SamplingJob where
  "job_no_track =
     \<lparr> job_ratio = 0, job_animation = Some anim_empty, job_context = Some ctx_empty,
       job_output = [transform0] \<rparr>"

text \<open>
  A channel of four tracks (one track group). \<open>clipA\<close> is laid out and sorted as
  \<open>clip_ok\<close> asks: track 0 has keys at the ratios 0, 1/4, 3/4 and 1, tracks 1 and 2 at 0
  and 1, track 3 at 0, 1/2 and 1. \<open>clipB\<close> has the layout of \<open>clip_layout\<close> and its keys
  are sorted by their own ratio: tracks 0, 1 and 2 have keys at 0, at 1/8, 2/8 and 3/8, and
  at 1; track 3 has keys at 0, 4/8, 5/8, 6/8 and 1.
\<close>

definition mk_key :: "real \<Rightarrow> nat \<Rightarrow> key" where
  "mk_key r p = \<lparr> ratio = r, previous = p \<rparr>"

definition clipA :: "key list" where
  "clipA = [mk_key 0 0, mk_key 0 0, mk_key 0 0, mk_key 0 0,
            mk_key (1/4) 4, mk_key 1 4, mk_key 1 4, mk_key (1/2) 4,
            mk_key (3/4) 4, mk_key 1 2, mk_key 1 2]"

definition clipB :: "key list" where
  "clipB = [mk_key 0 0, mk_key 0 0, mk_key 0 0, mk_key 0 0,
            mk_key (1/8) 4, mk_key (2/8) 4, mk_key (3/8) 4, mk_key (4/8) 4,
            mk_key (5/8) 1, mk_key (6/8) 1, mk_key 1 6, mk_key 1 6, mk_key 1 6, mk_key 1 4]"

text \<open>
  An operand entry and a stand-in for the decompression function, for running
  \<open>UpdateInterpKeyframes\<close> on \<open>clipA\<close>.
\<close>

definition interp0 :: "nat InterpSoa" where
  "interp0 = \<lparr> interp_ratio = (Load1 0, Load1 0), interp_value = (0, 0) \<rparr>"

definition sum_previous :: "key \<Rightarrow> key \<Rightarrow> key \<Rightarrow> key \<Rightarrow> nat" where
  "sum_previous k0 k1 k2 k3 = previous k0 + previous k1 + previous k2 + previous k3"

section \<open>Properties\<close>

subsection \<open>Context::Step\<close>

lemma Step_cases:
  "Step m ctx anim r =
     (if ctx_animation ctx \<noteq> Some (address anim)
         \<or> (kRestartOverhead < ctx_ratio ctx \<and> r < float_sub m (ctx_ratio ctx) r)
      then ctx\<lparr> ctx_animation := Some (address anim), translation_cursor := 0,
                rotation_cursor := 0, scale_cursor := 0, ctx_ratio := r \<rparr>
      else ctx\<lparr> ctx_ratio := r \<rparr>)"
  by (simp add: Step_def Let_def)

text \<open>
  C3, as the claim states it: the cursors are reset exactly when the animation differs or
  the last-used ratio exceeds the threshold and the new ratio is smaller than the
  last-used ratio by more than the last-used ratio itself. At the context \<open>ctx_half\<close>,
  stepped to ratio 1/8 against the same animation, that condition is false (3/8 is not
  more than 1/2), and still \<open>Step\<close> resets the three cursors, which were 8, 9 and 10.
\<close>

theorem C3_counterexample:
  "\<not> (ctx_animation ctx_half \<noteq> Some (address anim_empty)
       \<or> (kRestartOverhead < ctx_ratio ctx_half
           \<and> ctx_ratio ctx_half < float_sub maths0 (ctx_ratio ctx_half) (1 / 8)))
   \<and> translation_cursor ctx_half = 8
   \<and> translation_cursor (Step maths0 ctx_half anim_empty (1 / 8)) = 0
   \<and> rotation_cursor (Step maths0 ctx_half anim_empty (1 / 8)) = 0
   \<and> scale_cursor (Step maths0 ctx_half anim_empty (1 / 8)) = 0"
  by (simp add: Step_cases ctx_half_def ctx_empty_def anim_empty_def maths0_def
        kRestartOverhead_def)

text \<open>
  C3, amended: \<open>Step\<close> sets the three cursors to 0 exactly when the animation differs from
  the last-used one, or the last-used ratio exceeds the threshold and the new ratio is
  smaller than the last-used ratio by more than the new ratio itself
  (\<^verbatim>\<open>ratio_ - _ratio > _ratio\<close>). In every other case the cursors keep their values. In all
  cases the animation and the ratio are recorded as last used, and nothing else of the
  context changes.
\<close>

theorem C3_Step_resets:
  "(ctx_animation ctx \<noteq> Some (address anim)
      \<or> (kRestartOverhead < ctx_ratio ctx \<and> r < float_sub m (ctx_ratio ctx) r)
    \<longrightarrow> Step m ctx anim r
        = ctx\<lparr> ctx_animation := Some (address anim), ctx_ratio := r,
                translation_cursor := 0, rotation_cursor := 0, scale_cursor := 0 \<rparr>)
   \<and> (\<not> (ctx_animation ctx \<noteq> Some (address anim)
          \<or> (kRestartOverhead < ctx_ratio ctx \<and> r < float_sub m (ctx_ratio ctx) r))
    \<longrightarrow> Step m ctx anim r = ctx\<lparr> ctx_ratio := r \<rparr>)
   \<and> ctx_animation (Step m ctx anim r) = Some (address anim)
   \<and> ctx_ratio (Step m ctx anim r) = r"
  by (auto simp: Step_cases)

theorem C3_Step_resets_witness:
  "(kRestartOverhead < ctx_ratio ctx_half \<and> 1 / 8 < float_sub maths0 (ctx_ratio ctx_half) (1 / 8))
   \<and> Step maths0 ctx_half anim_empty (1 / 8)
       = ctx_half\<lparr> ctx_animation := Some (address anim_empty), ctx_ratio := 1 / 8,
                   translation_cursor := 0, rotation_cursor := 0, scale_cursor := 0 \<rparr>
   \<and> \<not> (ctx_animation ctx_half \<noteq> Some (address anim_empty)
          \<or> (kRestartOverhead < ctx_ratio ctx_half
              \<and> 3 / 8 < float_sub maths0 (ctx_ratio ctx_half) (3 / 8)))
   \<and> Step maths0 ctx_half anim_empty (3 / 8) = ctx_half\<lparr> ctx_ratio := 3 / 8 \<rparr>"
  using C3_Step_resets [of ctx_half anim_empty "1 / 8" maths0]
    C3_Step_resets [of ctx_half anim_empty "3 / 8" maths0]
  by (simp add: ctx_half_def ctx_empty_def anim_empty_def maths0_def kRestartOverhead_def)

subsection \<open>Validate and the early returns of Run\<close>

lemma Validate_iff:
  "Validate job \<longleftrightarrow>
     (\<exists>anim ctx. job_animation job = Some anim \<and> job_context job = Some ctx
        \<and> job_output job \<noteq> []
        \<and> num_soa_tracks anim \<le> length (job_output job)
        \<and> num_soa_tracks anim \<le> max_soa_tracks ctx)"
  by (auto simp: Validate_def split: option.splits)

lemma Run_invalid:
  "\<not> Validate job \<Longrightarrow> Run m job = Inr (False, job_output job, job_context job)"
  by (simp add: Run_def)

text \<open>
  C5, as the claim states it: \<open>Validate\<close> is true exactly when both pointers are set, the
  output span has at least as many transforms as the animation has track groups, and the
  context has at least that capacity. The job \<open>job_empty_output\<close> meets the three
  conditions (the animation has no track group) and \<open>Validate\<close> is false, because the
  output span is empty.
\<close>

theorem C5_counterexample:
  "\<not> (Validate job_empty_output \<longleftrightarrow>
        (job_animation job_empty_output \<noteq> None \<and> job_context job_empty_output \<noteq> None
         \<and> num_soa_tracks (the (job_animation job_empty_output))
               \<le> length (job_output job_empty_output)
         \<and> num_soa_tracks (the (job_animation job_empty_output))
               \<le> max_soa_tracks (the (job_context job_empty_output))))"
  by (simp add: Validate_def job_empty_output_def anim_empty_def ctx_empty_def)

text \<open>
  C5, amended: \<open>Validate\<close> is true exactly when both pointers are set, the output span is
  not empty, the output span has at least as many transforms as the animation has track
  groups, and the context has at least that capacity. Whenever \<open>Validate\<close> is false,
  \<open>Run\<close> returns false and leaves the output span and the context as they were.
\<close>

theorem C5_Validate_Run:
  "(Validate job \<longleftrightarrow>
      (\<exists>anim ctx. job_animation job = Some anim \<and> job_context job = Some ctx
         \<and> job_output job \<noteq> []
         \<and> num_soa_tracks anim \<le> length (job_output job)
         \<and> num_soa_tracks anim \<le> max_soa_tracks ctx))
   \<and> (\<not> Validate job \<longrightarrow> Run m job = Inr (False, job_output job, job_context job))"
  using Validate_iff [of job] Run_invalid [of job m] by blast

theorem C5_Validate_Run_witness:
  "\<not> Validate (job_no_track\<lparr> job_animation := None \<rparr>)
   \<and> Run maths0 (job_no_track\<lparr> job_animation := None \<rparr>)
       = Inr (False, [transform0], Some ctx_empty)
   \<and> Validate job_no_track"
  using C5_Validate_Run [of "job_no_track\<lparr> job_animation := None \<rparr>" maths0]
    C5_Validate_Run [of job_no_track maths0]
  by (simp add: job_no_track_def anim_empty_def ctx_empty_def)

text \<open>
  C6, as the claim states it: for an animation without track groups, \<open>Run\<close> with both
  pointers set returns true. On \<open>job_empty_output\<close> it returns false.
\<close>

theorem C6_counterexample:
  "num_soa_tracks anim_empty = 0
   \<and> job_animation job_empty_output = Some anim_empty
   \<and> job_context job_empty_output = Some ctx_empty
   \<and> Run maths0 job_empty_output = Inr (False, [], Some ctx_empty)"
  by (simp add: Run_def Validate_def job_empty_output_def anim_empty_def ctx_empty_def)

text \<open>
  C6, amended: for an animation without track groups, \<open>Run\<close> with both pointers set and an
  output span that is not empty returns true, whatever the capacity of the context, and
  leaves the output span and the context as they were.
\<close>

theorem C6_no_track:
  "job_animation job = Some anim \<Longrightarrow> job_context job = Some ctx
   \<Longrightarrow> num_soa_tracks anim = 0 \<Longrightarrow> job_output job \<noteq> []
   \<Longrightarrow> Run m job = Inr (True, job_output job, job_context job)"
  by (simp add: Run_def Validate_def)

theorem C6_no_track_witness:
  "job_animation job_no_track = Some anim_empty
   \<and> job_context job_no_track = Some ctx_empty
   \<and> num_soa_tracks anim_empty = 0 \<and> job_output job_no_track \<noteq> []
   \<and> Run maths0 job_no_track = Inr (True, [transform0], Some ctx_empty)"
  using C6_no_track [of job_no_track anim_empty ctx_empty maths0]
  by (simp add: job_no_track_def anim_empty_def)

text \<open>
  C10: with an empty output span \<open>Validate\<close> is false, whatever the animation and the
  context, and \<open>Run\<close> returns false, leaving the context as it was.
\<close>

theorem C10_empty_output:
  "job_output job = []
   \<Longrightarrow> \<not> Validate job \<and> Run m job = Inr (False, [], job_context job)"
  by (auto simp: Run_def Validate_def split: option.splits)

theorem C10_empty_output_witness:
  "job_output job_empty_output = []
   \<and> num_soa_tracks anim_empty \<le> length (job_output job_empty_output)
   \<and> num_soa_tracks anim_empty \<le> max_soa_tracks ctx_empty
   \<and> \<not> Validate job_empty_output
   \<and> Run maths0 job_empty_output = Inr (False, [], Some ctx_empty)"
  using C10_empty_output [of job_empty_output maths0]
  by (simp add: job_empty_output_def anim_empty_def)

subsection \<open>Clamping the ratio\<close>

lemma Clamp_idem: "Clamp 0 (Clamp 0 v 1) 1 = Clamp 0 v 1"
  by (simp add: Clamp_def)

text \<open>
  C7: for every job and every real ratio, \<open>Run\<close> at the ratio and \<open>Run\<close> at the ratio
  clamped to the interval from 0 to 1 return the same boolean, the same output and the
  same context (or the same fault).
\<close>

theorem C7_clamp:
  "Run m (job\<lparr> job_ratio := Clamp 0 (job_ratio job) 1 \<rparr>) = Run m job"
proof -
  have v: "Validate (job\<lparr> job_ratio := Clamp 0 (job_ratio job) 1 \<rparr>) = Validate job"
    by (simp add: Validate_def split: option.splits)
  show ?thesis
    unfolding Run_def v by (simp add: Clamp_idem Let_def split: option.splits)
qed

subsection \<open>UpdateInterpKeyframes\<close>

lemma update_group_ok:
  "group_ok n keys cache interp_keys i \<Longrightarrow>
   update_group n keys cache decompress interp_keys i
     = Inr (interp_keys[i := decode_group n keys cache decompress i])"
  by (simp add: group_ok_def update_group_def load_keys_def decode_group_def Let_def)

lemma and1_bit0: "(w :: 8 word) AND 1 = 0 \<longleftrightarrow> \<not> bit w 0"
  by (simp add: bit_0 and_one_eq mod_2_eq_odd)

lemma update_flags_result:
  "(\<And>k. bit outdated k \<Longrightarrow> group_ok n keys cache interp_keys (i + k)) \<Longrightarrow>
   \<exists>interp'. update_flags n keys cache decompress i outdated interp_keys = Inr interp'
     \<and> length interp' = length interp_keys
     \<and> (\<forall>k < length interp_keys. interp' ! k =
           (if i \<le> k \<and> bit outdated (k - i) then decode_group n keys cache decompress k
            else interp_keys ! k))"
proof (induction n keys cache decompress i outdated interp_keys rule: update_flags.induct)
  case (1 n keys cache decompress i outdated interp_keys)
  show ?case
  proof (cases "outdated = 0")
    case True
    then show ?thesis by (subst update_flags.simps) simp
  next
    case nz: False
    have shift: "bit (drop_bit (Suc 0) outdated) k = bit outdated (Suc k)" for k
      by (simp add: bit_drop_bit_eq)
    show ?thesis
    proof (cases "outdated AND 1 = 0")
      case True
      then have b0: "\<not> bit outdated 0"
        by (simp add: and1_bit0)
      have ok: "group_ok n keys cache interp_keys (i + 1 + k)" if "bit (drop_bit 1 outdated) k" for k
        using "1.prems" [of "Suc k"] that by (simp add: shift)
      from "1.IH"(1) [OF nz True ok]
      obtain interp' where r: "update_flags n keys cache decompress (i + 1) (drop_bit 1 outdated) interp_keys = Inr interp'"
        and l: "length interp' = length interp_keys"
        and v: "\<forall>k < length interp_keys. interp' ! k =
           (if i + 1 \<le> k \<and> bit (drop_bit 1 outdated) (k - (i + 1)) then decode_group n keys cache decompress k
            else interp_keys ! k)" by blast
      have "update_flags n keys cache decompress i outdated interp_keys = Inr interp'"
        using nz True r by (subst update_flags.simps) simp
      moreover have "interp' ! k =
           (if i \<le> k \<and> bit outdated (k - i) then decode_group n keys cache decompress k
            else interp_keys ! k)" if "k < length interp_keys" for k
      proof (cases "k = i")
        case True
        then show ?thesis using v that b0 by simp
      next
        case False
        then show ?thesis using v that by (auto simp: shift Suc_diff_Suc)
      qed
      ultimately show ?thesis using l by blast
    next
      case odd: False
      then have b0: "bit outdated 0"
        by (simp add: and1_bit0)
      have g: "group_ok n keys cache interp_keys i"
        using "1.prems" [of 0] b0 by simp
      let ?ik = "interp_keys[i := decode_group n keys cache decompress i]"
      have ug: "update_group n keys cache decompress interp_keys i = Inr ?ik"
        by (rule update_group_ok [OF g])
      have ok: "group_ok n keys cache ?ik (i + 1 + k)" if "bit (drop_bit 1 outdated) k" for k
        using "1.prems" [of "Suc k"] that by (simp add: shift group_ok_def)
      from "1.IH"(2) [OF nz odd ug ok]
      obtain interp' where r: "update_flags n keys cache decompress (i + 1) (drop_bit 1 outdated) ?ik = Inr interp'"
        and l: "length interp' = length ?ik"
        and v: "\<forall>k < length ?ik. interp' ! k =
           (if i + 1 \<le> k \<and> bit (drop_bit 1 outdated) (k - (i + 1)) then decode_group n keys cache decompress k
            else ?ik ! k)" by blast
      have "update_flags n keys cache decompress i outdated interp_keys = Inr interp'"
        using nz odd r ug by (subst update_flags.simps) simp
      moreover have "interp' ! k =
           (if i \<le> k \<and> bit outdated (k - i) then decode_group n keys cache decompress k
            else interp_keys ! k)" if "k < length interp_keys" for k
      proof (cases "k = i")
        case True
        then show ?thesis using v that b0 by simp
      next
        case False
        then show ?thesis using v that by (auto simp: shift Suc_diff_Suc)
      qed
      ultimately show ?thesis using l by auto
    qed
  qed
qed

lemma update_bytes_result:
  assumes len: "(n + 7) div 8 \<le> length outdated"
    and ok: "\<And>i. j * 8 \<le> i \<Longrightarrow> i < (n + 7) div 8 * 8
               \<Longrightarrow> bit (outdated ! (i div 8)) (i mod 8) \<Longrightarrow> group_ok n keys cache interp_keys i"
  shows "\<exists>outdated' interp'.
      update_bytes n keys cache decompress j outdated interp_keys = Inr (outdated', interp')
      \<and> length outdated' = length outdated
      \<and> (\<forall>b < length outdated. outdated' ! b = (if j \<le> b \<and> b < (n + 7) div 8 then 0 else outdated ! b))
      \<and> length interp' = length interp_keys
      \<and> (\<forall>k < length interp_keys. interp' ! k =
            (if j * 8 \<le> k \<and> k < (n + 7) div 8 * 8 \<and> bit (outdated ! (k div 8)) (k mod 8)
             then decode_group n keys cache decompress k else interp_keys ! k))"
  using len ok
proof (induction n keys cache decompress j outdated interp_keys rule: update_bytes.induct)
  case (1 n keys cache decompress j outdated interp_keys)
  let ?nof = "(n + 7) div 8"
  show ?case
  proof (cases "j < ?nof")
    case False
    then have "?nof \<le> j" and "?nof * 8 \<le> j * 8"
      by auto
    with False show ?thesis by (subst update_bytes.simps) auto
  next
    case True
    then have jl: "j < length outdated" and njl: "\<not> length outdated \<le> j" using "1.prems"(1) by auto
    have okb: "group_ok n keys cache interp_keys (j * 8 + k)" if "bit (outdated ! j) k" for k
    proof -
      have k8: "k < 8" using that bit_imp_le_length [of "outdated ! j" k] by simp
      then have "(j * 8 + k) div 8 = j" "(j * 8 + k) mod 8 = k" by auto
      moreover have "j * 8 + k < ?nof * 8" using True k8 by auto
      ultimately show ?thesis using "1.prems"(2) [of "j * 8 + k"] that by simp
    qed
    from update_flags_result [of "outdated ! j" n keys cache interp_keys "j * 8" decompress, OF okb]
    obtain interp1 where r1: "update_flags n keys cache decompress (j * 8) (outdated ! j) interp_keys = Inr interp1"
      and l1: "length interp1 = length interp_keys"
      and v1: "\<forall>k < length interp_keys. interp1 ! k =
           (if j * 8 \<le> k \<and> bit (outdated ! j) (k - j * 8) then decode_group n keys cache decompress k
            else interp_keys ! k)" by blast
    have len': "?nof \<le> length (outdated[j := 0])" using "1.prems"(1) by simp
    have ok': "group_ok n keys cache interp1 i"
      if "(j + 1) * 8 \<le> i" "i < ?nof * 8" "bit (outdated[j := 0] ! (i div 8)) (i mod 8)" for i
    proof -
      have "i div 8 \<noteq> j" using that(1) by auto
      then have "bit (outdated ! (i div 8)) (i mod 8)" using that(3) by simp
      moreover have "j * 8 \<le> i" using that(1) by simp
      ultimately have "group_ok n keys cache interp_keys i" using "1.prems"(2) that(2) by blast
      then show ?thesis using l1 by (simp add: group_ok_def)
    qed
    from "1.IH" [OF True njl r1 len' ok']
    obtain outdated' interp' where
      r2: "update_bytes n keys cache decompress (j + 1) (outdated[j := 0]) interp1 = Inr (outdated', interp')"
      and lo: "length outdated' = length (outdated[j := 0])"
      and vo: "\<forall>b < length (outdated[j := 0]). outdated' ! b =
                 (if j + 1 \<le> b \<and> b < ?nof then 0 else outdated[j := 0] ! b)"
      and li: "length interp' = length interp1"
      and vi: "\<forall>k < length interp1. interp' ! k =
            (if (j + 1) * 8 \<le> k \<and> k < ?nof * 8 \<and> bit (outdated[j := 0] ! (k div 8)) (k mod 8)
             then decode_group n keys cache decompress k else interp1 ! k)" by blast
    have res: "update_bytes n keys cache decompress j outdated interp_keys = Inr (outdated', interp')"
      using True njl r1 r2 by (subst update_bytes.simps) simp
    have o: "outdated' ! b = (if j \<le> b \<and> b < ?nof then 0 else outdated ! b)" if "b < length outdated" for b
      using vo that True by (cases "b = j") auto
    have i: "interp' ! k =
            (if j * 8 \<le> k \<and> k < ?nof * 8 \<and> bit (outdated ! (k div 8)) (k mod 8)
             then decode_group n keys cache decompress k else interp_keys ! k)" if kl: "k < length interp_keys" for k
    proof (cases "k div 8 = j")
      case here: True
      have dm: "k = j * 8 + k mod 8" using here div_mult_mod_eq [of k 8] by simp
      have ml: "k mod 8 < 8" by simp
      obtain r where r: "k = j * 8 + r" "r < 8" "r = k mod 8" using dm ml by blast
      have "(j + 1) * 8 \<le> ?nof * 8" using True by (intro mult_le_mono1) simp
      then have a: "j * 8 \<le> k" "\<not> (j + 1) * 8 \<le> k" "k - j * 8 = k mod 8" "k < ?nof * 8"
        using r by simp_all
      show ?thesis using vi v1 kl l1 a here by simp
    next
      case other: False
      have nb: "\<not> bit (outdated ! j) (k - j * 8)" if "(j + 1) * 8 \<le> k"
      proof
        assume "bit (outdated ! j) (k - j * 8)"
        then have "k - j * 8 < 8" using bit_imp_le_length [of "outdated ! j" "k - j * 8"] by simp
        then show False using that by simp
      qed
      show ?thesis
      proof (cases "(j + 1) * 8 \<le> k")
        case True
        then show ?thesis using vi v1 kl l1 other nb by auto
      next
        case False
        define q where "q = k div 8"
        define r where "r = k mod 8"
        have qr: "k = q * 8 + r" "r < 8" "q \<noteq> j"
          using other by (simp_all add: q_def r_def)
        have "k < j * 8" using qr False by arith
        then show ?thesis using vi v1 kl l1 by auto
      qed
    qed
    show ?thesis using res lo li l1 o i by simp
  qed
qed

lemma UpdateInterpKeyframes_result:
  assumes len: "(n + 7) div 8 \<le> length outdated"
    and okall: "\<forall>i \<in> set [0..<(n + 7) div 8 * 8]. dirty outdated i
               \<longrightarrow> group_ok n keys cache interp_keys i"
  shows "\<exists>outdated' interp'.
      UpdateInterpKeyframes n keys cache outdated interp_keys decompress = Inr (outdated', interp')
      \<and> length outdated' = length outdated
      \<and> (\<forall>i < (n + 7) div 8 * 8. \<not> dirty outdated' i)
      \<and> drop ((n + 7) div 8) outdated' = drop ((n + 7) div 8) outdated
      \<and> length interp' = length interp_keys
      \<and> (\<forall>i < length interp_keys. interp' ! i =
            (if i < (n + 7) div 8 * 8 \<and> dirty outdated i
             then decode_group n keys cache decompress i else interp_keys ! i))"
proof -
  let ?nof = "(n + 7) div 8"
  have ok: "group_ok n keys cache interp_keys i" if "i < ?nof * 8" "dirty outdated i" for i
    using okall that by simp
  have d: "dirty outdated i \<longleftrightarrow> bit (outdated ! (i div 8)) (i mod 8)" if "i < ?nof * 8" for i
  proof -
    have "i div 8 < ?nof" using that by (simp add: less_mult_imp_div_less)
    then show ?thesis using len by (simp add: dirty_def)
  qed
  have ok': "group_ok n keys cache interp_keys i"
    if "0 * 8 \<le> i" "i < ?nof * 8" "bit (outdated ! (i div 8)) (i mod 8)" for i
    using ok [of i] d [of i] that by simp
  from update_bytes_result [of n outdated 0 keys cache interp_keys decompress, OF len ok']
  obtain outdated' interp' where
    r: "update_bytes n keys cache decompress 0 outdated interp_keys = Inr (outdated', interp')"
    and lo: "length outdated' = length outdated"
    and vo: "\<forall>b < length outdated. outdated' ! b = (if 0 \<le> b \<and> b < ?nof then 0 else outdated ! b)"
    and li: "length interp' = length interp_keys"
    and vi: "\<forall>k < length interp_keys. interp' ! k =
            (if 0 * 8 \<le> k \<and> k < ?nof * 8 \<and> bit (outdated ! (k div 8)) (k mod 8)
             then decode_group n keys cache decompress k else interp_keys ! k)"
    by blast
  have c: "\<not> dirty outdated' i" if "i < ?nof * 8" for i
  proof -
    have "i div 8 < ?nof" using that by (simp add: less_mult_imp_div_less)
    then have "outdated' ! (i div 8) = 0" using vo len by simp
    then show ?thesis by (simp add: dirty_def)
  qed
  have dr: "drop ?nof outdated' = drop ?nof outdated"
    by (rule nth_equalityI) (use lo vo in auto)
  have v: "interp' ! i =
            (if i < ?nof * 8 \<and> dirty outdated i
             then decode_group n keys cache decompress i else interp_keys ! i)"
    if "i < length interp_keys" for i
    using vi that d [of i] by auto
  show ?thesis
    unfolding UpdateInterpKeyframes_def using r lo li c dr v by simp
qed

text \<open>
  C8: \<open>UpdateInterpKeyframes\<close> runs over the \<open>(n + 7) div 8\<close> bytes that hold the dirty bits
  of the \<open>n\<close> track groups. When the reads and the write of every group whose bit is set
  stay inside the arrays, it returns; afterwards every dirty bit in those bytes is clear
  (the bytes behind them are as before), the operands of every group whose bit was set are
  the ratios and decompressed values of the keys at its current bracket indices, and the
  operands of every other group are unchanged.
\<close>

theorem C8_UpdateInterpKeyframes:
  assumes len: "(n + 7) div 8 \<le> length outdated"
    and okall: "\<forall>i \<in> set [0..<(n + 7) div 8 * 8]. dirty outdated i
               \<longrightarrow> group_ok n keys cache interp_keys i"
  shows "\<exists>outdated' interp'.
      UpdateInterpKeyframes n keys cache outdated interp_keys decompress = Inr (outdated', interp')
      \<and> length outdated' = length outdated
      \<and> (\<forall>i < (n + 7) div 8 * 8. \<not> dirty outdated' i)
      \<and> drop ((n + 7) div 8) outdated' = drop ((n + 7) div 8) outdated
      \<and> length interp' = length interp_keys
      \<and> (\<forall>i < length interp_keys. interp' ! i =
            (if i < (n + 7) div 8 * 8 \<and> dirty outdated i
             then decode_group n keys cache decompress i else interp_keys ! i))"
  by (rule UpdateInterpKeyframes_result [OF len okall])

theorem C8_UpdateInterpKeyframes_witness:
  "(1 + 7) div 8 \<le> length [1 :: 8 word]
   \<and> dirty [1] 0
   \<and> group_ok 1 clipA [4, 1, 2, 7, 8, 5, 6, 9] [interp0] 0
   \<and> UpdateInterpKeyframes 1 clipA [4, 1, 2, 7, 8, 5, 6, 9] [1] [interp0] sum_previous
       = Inr ([0], [\<lparr> interp_ratio = ((1 / 4, 0, 0, 1 / 2), (3 / 4, 1, 1, 1)),
                        interp_value = (8, 14) \<rparr>])"
proof -
  have h1: "(1 + 7) div 8 \<le> length [1 :: 8 word]" by simp
  have h2: "\<forall>i \<in> set [0..<(1 + 7) div 8 * 8]. dirty [1] i
         \<longrightarrow> group_ok 1 clipA [4, 1, 2, 7, 8, 5, 6, 9] [interp0] i" by code_simp
  have h3: "dirty [1] 0" by code_simp
  have h4: "group_ok 1 clipA [4, 1, 2, 7, 8, 5, 6, 9] [interp0] 0" by code_simp
  from C8_UpdateInterpKeyframes [OF h1 h2, of sum_previous]
  obtain outdated' interp' where
    r: "UpdateInterpKeyframes 1 clipA [4, 1, 2, 7, 8, 5, 6, 9] [1] [interp0] sum_previous
          = Inr (outdated', interp')"
    and v: "\<forall>i < length [interp0]. interp' ! i =
            (if i < (1 + 7) div 8 * 8 \<and> dirty [1] i
             then decode_group 1 clipA [4, 1, 2, 7, 8, 5, 6, 9] sum_previous i else [interp0] ! i)"
    and l: "length interp' = length [interp0]" "length outdated' = length [1 :: 8 word]"
    and c: "\<forall>i < (1 + 7) div 8 * 8. \<not> dirty outdated' i"
    by blast
  have e: "UpdateInterpKeyframes 1 clipA [4, 1, 2, 7, 8, 5, 6, 9] [1] [interp0] sum_previous
       = Inr ([0], [\<lparr> interp_ratio = ((1 / 4, 0, 0, 1 / 2), (3 / 4, 1, 1, 1)),
                        interp_value = (8, 14) \<rparr>])" by code_simp
  show ?thesis using h1 h3 h4 e r by simp
qed

subsection \<open>UpdateCacheCursor\<close>

lemma clip_seed: "clip_ok n keys \<Longrightarrow> n * 4 \<le> i \<Longrightarrow> i < n * 4 * 2 \<Longrightarrow> pred_key keys i = i - n * 4"
  by (simp add: clip_ok_def clip_layout_def pred_key_def)

lemma clip_pred_range:
  "clip_ok n keys \<Longrightarrow> n * 4 * 2 \<le> i \<Longrightarrow> i < length keys
   \<Longrightarrow> n * 4 \<le> pred_key keys i \<and> pred_key keys i < i \<and> previous (keys ! i) \<le> i"
  unfolding clip_ok_def clip_layout_def pred_key_def
  by (elim conjE) (drule_tac x = i in bspec, simp, drule_tac x = i in bspec, simp, arith)

lemma clip_pred_inj:
  "clip_ok n keys \<Longrightarrow> n * 4 \<le> i \<Longrightarrow> i < j \<Longrightarrow> j < length keys
   \<Longrightarrow> pred_key keys i \<noteq> pred_key keys j"
  by (simp add: clip_ok_def clip_layout_def)

lemma clip_sorted:
  "clip_ok n keys \<Longrightarrow> n * 4 \<le> i \<Longrightarrow> i \<le> j \<Longrightarrow> j < length keys
   \<Longrightarrow> ratio (keys ! pred_key keys i) \<le> ratio (keys ! pred_key keys j)"
  by (cases "i = j") (simp_all add: clip_ok_def sorted_by_predecessor_def)

lemma clip_first: "clip_ok n keys \<Longrightarrow> t < n * 4 \<Longrightarrow> ratio (keys ! t) = 0"
  by (simp add: clip_ok_def clip_layout_def)

lemma clip_final:
  "clip_ok n keys \<Longrightarrow> n * 4 \<le> i \<Longrightarrow> i < length keys
   \<Longrightarrow> (\<And>j. i < j \<Longrightarrow> j < length keys \<Longrightarrow> pred_key keys j \<noteq> i) \<Longrightarrow> ratio (keys ! i) = 1"
  by (simp add: clip_ok_def clip_layout_def)

lemma brackets_init:
  assumes "clip_ok n keys"
  shows "brackets keys (n * 4) (n * 4 * 2) [0..<n * 4 * 2]"
  unfolding brackets_def
proof (intro conjI allI impI)
  fix i assume "n * 4 \<le> i \<and> i < n * 4 * 2 \<and> (\<forall>j. n * 4 * 2 \<le> j \<and> j < n * 4 * 2 \<longrightarrow> pred_key keys j \<noteq> i)"
  then have "i - n * 4 < n * 4" "[0..<n * 4 * 2] ! (i - n * 4 + n * 4) = i" by auto
  then show "\<exists>t<n * 4. [0..<n * 4 * 2] ! (t + n * 4) = i" by blast
qed (use assms in \<open>auto simp: clip_seed\<close>)

lemma brackets_target:
  assumes clip: "clip_ok n keys" and b: "brackets keys (n * 4) c cache"
    and c: "n * 4 * 2 \<le> c" "c < length keys"
  shows "\<exists>t < n * 4. cache ! (t + n * 4) = pred_key keys c
            \<and> (\<forall>u < n * 4. cache ! (u + n * 4) = pred_key keys c \<longrightarrow> u = t)"
proof -
  have r: "n * 4 \<le> pred_key keys c" "pred_key keys c < c"
    using clip_pred_range [OF clip c] by auto
  have "pred_key keys j \<noteq> pred_key keys c" if "n * 4 * 2 \<le> j \<and> j < c" for j
    using clip_pred_inj [OF clip, of j c] that c by auto
  then obtain t where t: "t < n * 4" "cache ! (t + n * 4) = pred_key keys c"
    using b r unfolding brackets_def by blast
  moreover have "u = t" if "u < n * 4" "cache ! (u + n * 4) = pred_key keys c" for u
    using b t that unfolding brackets_def by metis
  ultimately show ?thesis by blast
qed

lemma brackets_step:
  assumes clip: "clip_ok n keys" and b: "brackets keys (n * 4) c cache"
    and c: "n * 4 * 2 \<le> c" "c < length keys"
    and t: "t < n * 4" "cache ! (t + n * 4) = pred_key keys c"
  shows "brackets keys (n * 4) (Suc c) (cache[t := cache ! (t + n * 4), t + n * 4 := c])"
proof -
  let ?N = "n * 4"
  let ?c' = "cache[t := cache ! (t + ?N), t + ?N := c]"
  have len: "?N * 2 \<le> length cache" using b by (simp add: brackets_def)
  have last: "?c' ! (u + ?N) = (if u = t then c else cache ! (u + ?N))" if "u < ?N" for u
    using that t len by (simp add: nth_list_update)
  have pen: "?c' ! u = (if u = t then pred_key keys c else cache ! u)" if "u < ?N" for u
    using that t len by (simp add: nth_list_update)
  have bl: "?N \<le> cache ! (u + ?N)" "cache ! (u + ?N) < c" "cache ! u = pred_key keys (cache ! (u + ?N))"
    if "u < ?N" for u using b that by (simp_all add: brackets_def)
  have nos: "pred_key keys j \<noteq> cache ! (u + ?N)" if "u < ?N" "?N * 2 \<le> j" "j < c" for u j
    using b that by (simp add: brackets_def)
  have ex: "\<exists>u < ?N. cache ! (u + ?N) = i"
    if "?N \<le> i" "i < c" "\<And>j. ?N * 2 \<le> j \<Longrightarrow> j < c \<Longrightarrow> pred_key keys j \<noteq> i" for i
    using b that unfolding brackets_def by blast
  have dis: "u = v" if "u < ?N" "v < ?N" "cache ! (u + ?N) = cache ! (v + ?N)" for u v
    using b that unfolding brackets_def by blast
  have pc: "pred_key keys j < j" if "?N * 2 \<le> j" "j < length keys" for j
    using clip_pred_range [OF clip that] by simp
  show ?thesis
    unfolding brackets_def
  proof (intro conjI allI impI)
    show "?N * 2 \<le> length ?c'" using len by simp
  next
    fix u assume u: "u < ?N"
    show "?N \<le> ?c' ! (u + ?N)" using last [OF u] bl(1) [OF u] c by auto
    show "?c' ! (u + ?N) < Suc c" using last [OF u] bl(2) [OF u] by auto
    show "?c' ! u = pred_key keys (?c' ! (u + ?N))"
      using last [OF u] pen [OF u] bl(3) [OF u] by auto
  next
    fix u j assume u: "u < ?N" and j: "?N * 2 \<le> j \<and> j < Suc c"
    show "pred_key keys j \<noteq> ?c' ! (u + ?N)"
    proof (cases "u = t")
      case True
      then have "?c' ! (u + ?N) = c" using last [OF u] by simp
      moreover have "pred_key keys j < c" using pc [of j] j c by auto
      ultimately show ?thesis by simp
    next
      case False
      then have e: "?c' ! (u + ?N) = cache ! (u + ?N)" using last [OF u] by simp
      show ?thesis
      proof (cases "j = c")
        case True
        then show ?thesis using e dis [OF u t(1)] t(2) False by auto
      next
        case False
        then show ?thesis using e nos [OF u, of j] j by auto
      qed
    qed
  next
    fix i
    assume i: "?N \<le> i \<and> i < Suc c \<and> (\<forall>j. ?N * 2 \<le> j \<and> j < Suc c \<longrightarrow> pred_key keys j \<noteq> i)"
    show "\<exists>u < ?N. ?c' ! (u + ?N) = i"
    proof (cases "i = c")
      case True
      then show ?thesis using last [OF t(1)] t(1) by auto
    next
      case False
      then have "i < c" using i by simp
      moreover have "pred_key keys j \<noteq> i" if "?N * 2 \<le> j" "j < c" for j using i that by simp
      ultimately obtain u where u: "u < ?N" "cache ! (u + ?N) = i" using ex [of i] i by blast
      have "u \<noteq> t" using u t(2) i c by auto
      then show ?thesis using last [OF u(1)] u by auto
    qed
  next
    fix u v assume u: "u < ?N" and v: "v < ?N" and e: "?c' ! (u + ?N) = ?c' ! (v + ?N)"
    show "u = v"
      using e last [OF u] last [OF v] bl(2) [OF u] bl(2) [OF v] dis [OF u v]
      by (auto split: if_splits)
  qed
qed

lemma find_track_unique:
  assumes "t < N" "cache ! (t + N) = target"
    and "\<forall>u < N. cache ! (u + N) = target \<longrightarrow> u = t"
  shows "find_track cache N target = t"
proof -
  have split: "[0..<N] = [0..<t] @ t # [Suc t..<N]"
    using assms(1) by (metis le_add2 le_add_same_cancel2 less_imp_add_positive upt_add_eq_append upt_conv_Cons)
  have "cache ! (u + N) \<noteq> target" if "u < t" for u
  proof
    assume "cache ! (u + N) = target"
    moreover have "u < N" using that assms(1) by simp
    ultimately have "u = t" using assms(3) by blast
    then show False using that by simp
  qed
  then have "takeWhile (\<lambda>t. cache ! (t + N) \<noteq> target) ([0..<t] @ t # [Suc t..<N])
      = [0..<t] @ takeWhile (\<lambda>t. cache ! (t + N) \<noteq> target) (t # [Suc t..<N])"
    by (intro takeWhile_append2) simp
  then have "takeWhile (\<lambda>t. cache ! (t + N) \<noteq> target) [0..<N] = [0..<t]"
    using split assms(2) by simp
  then show ?thesis by (simp add: find_track_def)
qed

lemma replay_start: "replay keys N (N * 2) = [0..<N * 2]"
  by (simp add: replay_def)

lemma replay_Suc: "N * 2 \<le> c \<Longrightarrow> replay keys N (Suc c) = consume keys N (replay keys N c) c"
  by (simp add: replay_def)

lemma replay_brackets:
  assumes clip: "clip_ok n keys" and c: "n * 4 * 2 \<le> c" "c \<le> length keys"
  shows "brackets keys (n * 4) c (replay keys (n * 4) c) \<and> length (replay keys (n * 4) c) = n * 4 * 2"
  using c
proof (induction c)
  case 0
  then show ?case using clip by (simp add: clip_ok_def clip_layout_def)
next
  case (Suc c)
  show ?case
  proof (cases "n * 4 * 2 \<le> c")
    case False
    then have e: "Suc c = n * 4 * 2" using Suc.prems by simp
    show ?thesis unfolding e replay_start
      by (rule conjI [OF brackets_init [OF clip]]) simp
  next
    case True
    let ?R = "replay keys (n * 4) c"
    have IH: "brackets keys (n * 4) c ?R" "length ?R = n * 4 * 2"
      using Suc.IH True Suc.prems by simp_all
    have cl: "c < length keys" using Suc.prems by simp
    from brackets_target [OF clip IH(1) True cl]
    obtain t where t: "t < n * 4" "?R ! (t + n * 4) = pred_key keys c"
      "\<forall>u < n * 4. ?R ! (u + n * 4) = pred_key keys c \<longrightarrow> u = t" by blast
    have ft: "find_track ?R (n * 4) (pred_key keys c) = t"
      by (rule find_track_unique [OF t])
    have "replay keys (n * 4) (Suc c) = ?R[t := ?R ! (t + n * 4), t + n * 4 := c]"
      using True ft by (simp add: replay_Suc consume_def)
    then show ?thesis
      using brackets_step [OF clip IH(1) True cl t(1,2)] IH(2) by simp
  qed
qed

lemma TrackForward_scan1_unique:
  assumes "N * 2 \<le> length cache" "t < N" "cache ! (t + N) = target"
    and "\<forall>u < N. cache ! (u + N) = target \<longrightarrow> u = t"
    and "N \<le> e"
  shows "TrackForward_scan1 cache target e N = Inr (if e \<le> t + N then Some t else None)"
  using assms
proof (induction cache target e N rule: TrackForward_scan1.induct)
  case (1 cache target entry num_tracks)
  note len = "1.prems"(1) and tN = "1.prems"(2) and hit = "1.prems"(3)
    and uniq = "1.prems"(4) and ge = "1.prems"(5)
  show ?case
  proof (cases "entry < num_tracks * 2")
    case False
    then have "\<not> entry \<le> t + num_tracks" using tN by simp
    with False show ?thesis by (subst TrackForward_scan1.simps) simp
  next
    case True
    then have ib: "\<not> length cache \<le> entry" using len by simp
    show ?thesis
    proof (cases "cache ! entry = target")
      case m: True
      have "entry - num_tracks < num_tracks" using True ge by simp
      moreover have "cache ! (entry - num_tracks + num_tracks) = target" using m ge by simp
      ultimately have "entry - num_tracks = t" using uniq by blast
      then have "entry \<le> t + num_tracks" by simp
      with True ib m \<open>entry - num_tracks = t\<close> show ?thesis
        by (subst TrackForward_scan1.simps) simp
    next
      case nm: False
      then have ne: "entry \<noteq> t + num_tracks" using hit by auto
      have ge': "num_tracks \<le> entry + 1" using ge by simp
      have "TrackForward_scan1 cache target (entry + 1) num_tracks
              = Inr (if entry + 1 \<le> t + num_tracks then Some t else None)"
        by (rule "1.IH" [OF True ib nm len tN hit uniq ge'])
      moreover have "(entry + 1 \<le> t + num_tracks) = (entry \<le> t + num_tracks)"
        using ne by auto
      ultimately show ?thesis using True ib nm
        by (subst TrackForward_scan1.simps) simp
    qed
  qed
qed

lemma mult_ge_sum: "1 \<le> a \<Longrightarrow> 1 \<le> b \<Longrightarrow> a + b \<le> a * b + (1 :: nat)"
  by (cases a; cases b) simp_all

lemma TrackForward_scan2_unique:
  assumes "N * 2 \<le> length cache" "t < N" "cache ! (t + N) = target"
    and "\<forall>u < N. cache ! (u + N) = target \<longrightarrow> u = t"
    and "N \<le> e" "e \<le> t + N" "t < lt" "lt < N"
  shows "TrackForward_scan2 cache target e lt N = Inr t"
  using assms
proof (induction cache target e lt N rule: TrackForward_scan2.induct)
  case (1 cache target entry last_track num_tracks)
  note len = "1.prems"(1) and tN = "1.prems"(2) and hit = "1.prems"(3)
    and uniq = "1.prems"(4) and ge = "1.prems"(5) and le = "1.prems"(6)
    and tlt = "1.prems"(7) and ltN = "1.prems"(8)
  have ib: "\<not> length cache \<le> entry" using len tN le by simp
  show ?case
  proof (cases "cache ! entry = target")
    case m: True
    have "entry - num_tracks < num_tracks" using le tN ge by simp
    moreover have "cache ! (entry - num_tracks + num_tracks) = target" using m ge by simp
    ultimately have "entry - num_tracks = t" using uniq by blast
    with ib m show ?thesis by (subst TrackForward_scan2.simps) simp
  next
    case nm: False
    then have "entry \<noteq> t + num_tracks" using hit by auto
    then have lt: "entry < t + num_tracks" using le by simp
    have "last_track + num_tracks \<le> last_track * num_tracks + 1"
      using mult_ge_sum [of last_track num_tracks] tlt ltN by simp
    then have as: "entry < last_track * num_tracks" using lt tlt by simp
    have as': "\<not> \<not> entry < last_track * num_tracks" using as by simp
    have ge': "num_tracks \<le> entry + 1" using ge by simp
    have le': "entry + 1 \<le> t + num_tracks" using lt by simp
    have "TrackForward_scan2 cache target (entry + 1) last_track num_tracks = Inr t"
      by (rule "1.IH" [OF ib nm as' len tN hit uniq ge' le' tlt ltN])
    with ib nm as show ?thesis by (subst TrackForward_scan2.simps) simp
  qed
qed

lemma TrackForward_unique:
  assumes "N * 2 \<le> length cache" "t < N" "cache ! (t + N) = pred_key keys k"
    and "\<forall>u < N. cache ! (u + N) = pred_key keys k \<longrightarrow> u = t"
    and "k < length keys" "previous (keys ! k) \<le> k" "lt < N"
  shows "TrackForward cache keys k lt N = Inr t"
proof -
  have s1: "TrackForward_scan1 cache (pred_key keys k) (lt + N) N
              = Inr (if lt + N \<le> t + N then Some t else None)"
    by (rule TrackForward_scan1_unique [OF assms(1-4)]) simp
  show ?thesis
  proof (cases "lt \<le> t")
    case True
    with s1 assms(5-7) show ?thesis
      by (simp add: TrackForward_def pred_key_def)
  next
    case False
    then have "t < lt" by simp
    then have s2: "TrackForward_scan2 cache (pred_key keys k) N lt N = Inr t"
      by (intro TrackForward_scan2_unique [OF assms(1-4)] assms(7)) simp_all
    from False s1 s2 assms(5-7) show ?thesis
      by (simp add: TrackForward_def pred_key_def)
  qed
qed

lemma TrackBackward_scan1_unique:
  assumes "N * 2 \<le> length cache" "t < N" "cache ! (t + N) = target"
    and "\<forall>u < N. cache ! (u + N) = target \<longrightarrow> u = t"
    and "e < N * 2"
  shows "TrackBackward_scan1 cache target e N = Inr (if t + N \<le> e then Some t else None)"
  using assms
proof (induction cache target e N rule: TrackBackward_scan1.induct)
  case (1 cache target entry num_tracks)
  note len = "1.prems"(1) and tN = "1.prems"(2) and hit = "1.prems"(3)
    and uniq = "1.prems"(4) and lt = "1.prems"(5)
  show ?case
  proof (cases "num_tracks \<le> entry")
    case False
    then have "\<not> t + num_tracks \<le> entry" by simp
    with False show ?thesis by (subst TrackBackward_scan1.simps) simp
  next
    case True
    have ib: "\<not> length cache \<le> entry" using len lt by simp
    show ?thesis
    proof (cases "cache ! entry = target")
      case m: True
      have "entry - num_tracks < num_tracks" using True lt by simp
      moreover have "cache ! (entry - num_tracks + num_tracks) = target" using m True by simp
      ultimately have e: "entry - num_tracks = t" using uniq by blast
      then have "t + num_tracks \<le> entry" using True by simp
      with True ib m e show ?thesis
        by (subst TrackBackward_scan1.simps) simp
    next
      case nm: False
      then have ne: "entry \<noteq> t + num_tracks" using hit by auto
      have e0: "entry \<noteq> 0" using True tN by simp
      have lt': "entry - 1 < num_tracks * 2" using lt by simp
      have "TrackBackward_scan1 cache target (entry - 1) num_tracks
              = Inr (if t + num_tracks \<le> entry - 1 then Some t else None)"
        by (rule "1.IH" [OF True ib nm e0 len tN hit uniq lt'])
      moreover have "(t + num_tracks \<le> entry - 1) = (t + num_tracks \<le> entry)"
        using ne e0 by auto
      ultimately show ?thesis using True ib nm e0
        by (subst TrackBackward_scan1.simps) simp
    qed
  qed
qed

lemma TrackBackward_scan2_unique:
  assumes "N * 2 \<le> length cache" "t < N" "cache ! (t + N) = target"
    and "\<forall>u < N. cache ! (u + N) = target \<longrightarrow> u = t"
    and "t + N \<le> e" "e < N * 2" "lt < t"
  shows "TrackBackward_scan2 cache target e lt N = Inr t"
  using assms
proof (induction cache target e lt N rule: TrackBackward_scan2.induct)
  case (1 cache target entry last_track num_tracks)
  note len = "1.prems"(1) and tN = "1.prems"(2) and hit = "1.prems"(3)
    and uniq = "1.prems"(4) and ge = "1.prems"(5) and lt = "1.prems"(6)
    and ltt = "1.prems"(7)
  have ib: "\<not> length cache \<le> entry" using len lt by simp
  show ?case
  proof (cases "cache ! entry = target")
    case m: True
    have "entry - num_tracks < num_tracks" using lt ge by simp
    moreover have "cache ! (entry - num_tracks + num_tracks) = target" using m ge by simp
    ultimately have "entry - num_tracks = t" using uniq by blast
    with ib m show ?thesis by (subst TrackBackward_scan2.simps) simp
  next
    case nm: False
    then have "entry \<noteq> t + num_tracks" using hit by auto
    then have gt: "t + num_tracks < entry" using ge by simp
    then have as: "last_track + num_tracks < entry" using ltt by simp
    have as': "\<not> \<not> last_track + num_tracks < entry" using as by simp
    have ge': "t + num_tracks \<le> entry - 1" using gt by simp
    have lt': "entry - 1 < num_tracks * 2" using lt by simp
    have "TrackBackward_scan2 cache target (entry - 1) last_track num_tracks = Inr t"
      by (rule "1.IH" [OF ib nm as' len tN hit uniq ge' lt' ltt])
    with ib nm as show ?thesis by (subst TrackBackward_scan2.simps) simp
  qed
qed

lemma TrackBackward_unique:
  assumes "N * 2 \<le> length cache" "t < N" "cache ! (t + N) = target"
    and "\<forall>u < N. cache ! (u + N) = target \<longrightarrow> u = t"
    and "lt < N"
  shows "TrackBackward cache target lt N = Inr t"
proof -
  have s1: "TrackBackward_scan1 cache target (lt + N) N
              = Inr (if t + N \<le> lt + N then Some t else None)"
    by (rule TrackBackward_scan1_unique [OF assms(1-4)]) (use assms(5) in simp)
  show ?thesis
  proof (cases "t \<le> lt")
    case True
    with s1 assms(5) show ?thesis by (simp add: TrackBackward_def)
  next
    case False
    then have "lt < t" by simp
    then have s2: "TrackBackward_scan2 cache target (N * 2 - 1) lt N = Inr t"
      by (intro TrackBackward_scan2_unique [OF assms(1-4)]) (use assms(2) in simp_all)
    from False s1 s2 assms(5) show ?thesis by (simp add: TrackBackward_def)
  qed
qed

lemma group_byte: "g < n \<Longrightarrow> g div 8 < (n + 7) div (8::nat)"
proof -
  assume a: "g < n"
  define q where "q = g div 8"
  define Q where "Q = (n + 7) div 8"
  have 1: "q * 8 \<le> g" by (simp add: q_def)
  have 2: "n + 7 < Q * 8 + 8" unfolding Q_def using dividend_less_div_times [of 8 "n + 7"] by simp
  have "q * 8 < Q * 8" using 1 2 a by linarith
  then show ?thesis unfolding q_def Q_def by simp
qed

lemma div4_div8: "(t :: nat) div 4 div 8 = t div 32"
  by (simp add: div_mult2_eq [symmetric])

lemma div4_mod8: "(t :: nat) div 4 mod 8 = t mod 32 div 4"
proof -
  have "t mod 32 = 4 * (t div 4 mod 8) + t mod 4"
    using mod_mult2_eq [of t 4 8] by simp
  then show ?thesis by simp
qed

lemma group_of_track:
  "g div 8 = t div 32 \<Longrightarrow> (g = t div 4 \<longleftrightarrow> g mod 8 = t mod 32 div (4::nat))"
proof -
  assume a: "g div 8 = t div 32"
  have g: "g = g div 8 * 8 + g mod 8" by simp
  have t: "t div 4 = t div 4 div 8 * 8 + t div 4 mod 8" by simp
  show ?thesis using a g t div4_div8 [of t] div4_mod8 [of t] by metis
qed

lemma bit_or_push: "k < 8 \<Longrightarrow> bit ((w :: 8 word) OR push_bit k 1) m \<longleftrightarrow> bit w m \<or> m = k"
  by (auto simp: bit_or_iff bit_exp_iff possible_bit_word)

lemma ff_mask: "(0xff :: 8 word) = mask 8"
  by (simp add: mask_eq_exp_minus_1)

lemma bit_drop_ff: "bit (drop_bit k (0xff :: 8 word)) m \<longleftrightarrow> m + k < 8"
  unfolding ff_mask by (auto simp: bit_drop_bit_eq bit_mask_iff possible_bit_word ac_simps)

lemma bit_ff: "bit (0xff :: 8 word) m \<longleftrightarrow> m < 8"
  unfolding ff_mask by (auto simp: bit_mask_iff possible_bit_word)

lemma mark_outdated_dirty:
  assumes "t < n * 4" "(n + 7) div 8 \<le> length outdated"
  shows "\<exists>outdated'. mark_outdated outdated t = Inr outdated'
           \<and> length outdated' = length outdated
           \<and> (\<forall>g. dirty outdated' g \<longleftrightarrow> dirty outdated g \<or> g = t div 4)"
proof -
  let ?b = "t div 32" and ?k = "t mod 32 div 4"
  have "t div 4 < n" using assms(1) by (simp add: less_mult_imp_div_less)
  then have "t div 4 div 8 < (n + 7) div 8" by (rule group_byte)
  then have bl: "?b < length outdated" using assms(2) by (simp add: div4_div8)
  have k8: "?k < 8" by (simp add: less_mult_imp_div_less)
  let ?o = "outdated[?b := outdated ! ?b OR push_bit ?k 1]"
  have r: "mark_outdated outdated t = Inr ?o" using bl by (simp add: mark_outdated_def)
  have "dirty ?o g \<longleftrightarrow> dirty outdated g \<or> g = t div 4" for g
  proof (cases "g div 8 = ?b")
    case False
    then have "g \<noteq> t div 4" using div4_div8 [of t] by auto
    then show ?thesis using False by (simp add: dirty_def)
  next
    case True
    have e: "g = t div 4 \<longleftrightarrow> g mod 8 = ?k"
      by (rule group_of_track [OF True])
    have "dirty ?o g \<longleftrightarrow> bit (outdated ! ?b OR push_bit ?k 1) (g mod 8)"
      using True bl by (simp add: dirty_def)
    also have "\<dots> \<longleftrightarrow> bit (outdated ! ?b) (g mod 8) \<or> g mod 8 = ?k"
      by (rule bit_or_push [OF k8])
    also have "\<dots> \<longleftrightarrow> dirty outdated g \<or> g = t div 4"
      using True bl e by (simp add: dirty_def)
    finally show ?thesis .
  qed
  then show ?thesis using r by simp
qed

lemma decode_group_cong:
  assumes "\<And>k. k < 4 \<Longrightarrow> cache' ! (g * 4 + k) = cache ! (g * 4 + k)"
    and "\<And>k. k < 4 \<Longrightarrow> cache' ! ((g + n) * 4 + k) = cache ! ((g + n) * 4 + k)"
  shows "decode_group n keys cache' decompress g = decode_group n keys cache decompress g"
  using assms(1) [of 0] assms(1) [of 1] assms(1) [of 2] assms(1) [of 3]
    assms(2) [of 0] assms(2) [of 1] assms(2) [of 2] assms(2) [of 3]
  by (simp add: decode_group_def)

lemma coherent_update:
  assumes co: "coherent n keys dec cache outdated soa"
    and t: "t < n * 4"
    and d: "\<And>g. dirty outdated' g \<longleftrightarrow> dirty outdated g \<or> g = t div 4"
    and fr: "\<And>i. i \<noteq> t \<Longrightarrow> i \<noteq> t + n * 4 \<Longrightarrow> cache' ! i = cache ! i"
  shows "coherent n keys dec cache' outdated' soa"
proof -
  have tg: "t div 4 < n" using t by (simp add: less_mult_imp_div_less)
  have same: "decode_group n keys cache' dec g = decode_group n keys cache dec g"
    if "g < n" "g \<noteq> t div 4" for g
  proof (rule decode_group_cong)
    fix k :: nat assume k: "k < 4"
    have ne: "g * 4 + k \<noteq> t" using that(2) k by auto
    have lt: "g * 4 + k < n * 4" using that(1) k by simp
    show "cache' ! (g * 4 + k) = cache ! (g * 4 + k)"
      using fr [of "g * 4 + k"] ne lt by simp
    show "cache' ! ((g + n) * 4 + k) = cache ! ((g + n) * 4 + k)"
      using fr [of "(g + n) * 4 + k"] ne t by (simp add: add_mult_distrib)
  qed
  have 3: "soa ! g = decode_group n keys cache' dec g" if "g < n" "\<not> dirty outdated' g" for g
  proof -
    have "\<not> dirty outdated g" "g \<noteq> t div 4" using that(2) d [of g] by auto
    then show ?thesis using co that(1) same [of g] unfolding coherent_def by simp
  qed
  show ?thesis
    unfolding coherent_def using 3 by blast
qed

lemma brackets_take:
  assumes "N * 2 \<le> length cache" "brackets keys N c (take (N * 2) cache)"
  shows "brackets keys N c cache"
proof -
  have e1: "take (N * 2) cache ! (t + N) = cache ! (t + N)" if "t < N" for t
    using that by simp
  have e2: "take (N * 2) cache ! t = cache ! t" if "t < N" for t
    using that by simp
  show ?thesis
    using assms unfolding brackets_def by (simp add: e1 e2 cong: conj_cong)
qed

lemma inv_brackets:
  assumes "clip_ok n keys" "cursor_inv n keys dec soa c cache outdated"
  shows "brackets keys (n * 4) c cache"
  using assms replay_brackets [OF assms(1), of c] brackets_take [of "n * 4" cache keys c]
  by (simp add: cursor_inv_def)

lemma forward_body_step:
  assumes clip: "clip_ok n keys"
    and inv: "cursor_inv n keys dec soa c cache outdated"
    and c: "c < length keys" and tr: "track < n * 4"
  shows "\<exists>t outdated'. t < n * 4
      \<and> cache ! (t + n * 4) = pred_key keys c
      \<and> forward_body keys (n * 4) c track cache outdated
          = Inr (t, cache[t := cache ! (t + n * 4), t + n * 4 := c], outdated')
      \<and> mark_outdated outdated t = Inr outdated'
      \<and> (\<forall>g. dirty outdated' g \<longleftrightarrow> dirty outdated g \<or> g = t div 4)
      \<and> cursor_inv n keys dec soa (Suc c) (cache[t := cache ! (t + n * 4), t + n * 4 := c]) outdated'"
proof -
  let ?N = "n * 4"
  have c2: "?N * 2 \<le> c" and len: "?N * 2 \<le> length cache"
    and tk: "take (?N * 2) cache = replay keys ?N c"
    and co: "coherent n keys dec cache outdated soa"
    and nof: "(n + 7) div 8 \<le> length outdated"
    using inv by (simp_all add: cursor_inv_def)
  have b: "brackets keys ?N c cache" by (rule inv_brackets [OF clip inv])
  from brackets_target [OF clip b c2 c]
  obtain t where t: "t < ?N" "cache ! (t + ?N) = pred_key keys c"
    and uniq: "\<forall>u < ?N. cache ! (u + ?N) = pred_key keys c \<longrightarrow> u = t" by blast
  have pr: "previous (keys ! c) \<le> c" using clip_pred_range [OF clip c2 c] by simp
  have tf: "TrackForward cache keys c track ?N = Inr t"
    by (rule TrackForward_unique [OF len t uniq c pr tr])
  from mark_outdated_dirty [OF t(1) nof]
  obtain outdated' where m: "mark_outdated outdated t = Inr outdated'"
    "length outdated' = length outdated"
    "\<And>g. dirty outdated' g \<longleftrightarrow> dirty outdated g \<or> g = t div 4" by blast
  let ?c' = "cache[t := cache ! (t + ?N), t + ?N := c]"
  have ib: "\<not> length cache \<le> t + ?N" using t(1) len by simp
  have fb: "forward_body keys ?N c track cache outdated = Inr (t, ?c', outdated')"
    using tf m(1) ib t(2) by (simp add: forward_body_def pred_key_def)
  have R: "?N * 2 \<le> length (replay keys ?N c)" using tk len
    by (metis length_take min.absorb2 order_refl)
  have Rt: "replay keys ?N c ! (u + ?N) = cache ! (u + ?N)" if "u < ?N" for u
    using that tk [symmetric] by simp
  have uniqR: "\<forall>u < ?N. replay keys ?N c ! (u + ?N) = pred_key keys c \<longrightarrow> u = t"
    using uniq Rt by simp
  have hitR: "replay keys ?N c ! (t + ?N) = pred_key keys c"
    using t Rt by simp
  have ft: "find_track (replay keys ?N c) ?N (pred_key keys c) = t"
    by (rule find_track_unique [OF t(1) hitR uniqR])
  have "take (?N * 2) ?c' = (replay keys ?N c)[t := cache ! (t + ?N), t + ?N := c]"
    using tk by (simp add: take_update_swap)
  also have "\<dots> = replay keys ?N (Suc c)"
    using c2 ft Rt [OF t(1)] by (simp add: replay_Suc consume_def)
  finally have tk': "take (?N * 2) ?c' = replay keys ?N (Suc c)" .
  have co': "coherent n keys dec ?c' outdated' soa"
    by (rule coherent_update [OF co t(1) m(3)]) simp
  have "cursor_inv n keys dec soa (Suc c) ?c' outdated'"
    using c2 c len tk' co' nof m(2) by (simp add: cursor_inv_def)
  then show ?thesis using t(1,2) fb m(1) m(3) by blast
qed

lemma Forward_loop:
  assumes clip: "clip_ok n keys"
  shows "length keys - c = d \<Longrightarrow> cursor_inv n keys dec soa c cache outdated \<Longrightarrow> track < n * 4
    \<Longrightarrow> \<exists>c' t' cache' outdated'.
          Forward r keys (n * 4) c track cache outdated = Inr (c', t', cache', outdated')
          \<and> cursor_inv n keys dec soa c' cache' outdated' \<and> t' < n * 4 \<and> c \<le> c'
          \<and> length cache' = length cache \<and> length outdated' = length outdated
          \<and> (c' = length keys \<or> r < ratio (keys ! pred_key keys c'))
          \<and> (c < c' \<longrightarrow> ratio (keys ! pred_key keys (c' - 1)) \<le> r)
          \<and> (\<forall>g. dirty outdated' g \<longrightarrow> dirty outdated g \<or> g < n)"
proof (induction d arbitrary: c track cache outdated)
  case 0
  then have "c = length keys" by (simp add: cursor_inv_def)
  then show ?case using 0 by (subst Forward.simps) simp
next
  case (Suc d)
  then have cl: "c < length keys" by simp
  have c2: "n * 4 * 2 \<le> c" using Suc.prems by (simp add: cursor_inv_def)
  have pr: "\<not> c < previous (keys ! c)" using clip_pred_range [OF clip c2 cl] by simp
  show ?case
  proof (cases "ratio (keys ! (c - previous (keys ! c))) \<le> r")
    case False
    then show ?thesis using cl pr Suc.prems
      by (subst Forward.simps) (simp add: pred_key_def)
  next
    case True
    from forward_body_step [OF clip Suc.prems(2) cl Suc.prems(3)]
    obtain t outdated1 where t: "t < n * 4"
      and fb: "forward_body keys (n * 4) c track cache outdated
          = Inr (t, cache[t := cache ! (t + n * 4), t + n * 4 := c], outdated1)"
      and mo: "mark_outdated outdated t = Inr outdated1"
      and d1: "\<forall>g. dirty outdated1 g \<longleftrightarrow> dirty outdated g \<or> g = t div 4"
      and inv1: "cursor_inv n keys dec soa (Suc c) (cache[t := cache ! (t + n * 4), t + n * 4 := c]) outdated1"
      by blast
    have tg: "t div 4 < n" using t by (simp add: less_mult_imp_div_less)
    let ?c1 = "cache[t := cache ! (t + n * 4), t + n * 4 := c]"
    have lo: "length outdated1 = length outdated"
      using mo by (auto simp: mark_outdated_def split: if_splits)
    have d: "length keys - Suc c = d" using Suc.prems(1) by simp
    from Suc.IH [OF d inv1 t]
    obtain c' t' cache' outdated' where
      r: "Forward r keys (n * 4) (Suc c) t ?c1 outdated1 = Inr (c', t', cache', outdated')"
      and p: "cursor_inv n keys dec soa c' cache' outdated'" "t' < n * 4" "Suc c \<le> c'"
        "length cache' = length ?c1" "length outdated' = length outdated1"
        "c' = length keys \<or> r < ratio (keys ! pred_key keys c')"
        "Suc c < c' \<longrightarrow> ratio (keys ! pred_key keys (c' - 1)) \<le> r"
        "\<forall>g. dirty outdated' g \<longrightarrow> dirty outdated1 g \<or> g < n"
      by blast
    have dd: "\<forall>g. dirty outdated' g \<longrightarrow> dirty outdated g \<or> g < n"
      using p(8) d1 tg by blast
    have "Forward r keys (n * 4) c track cache outdated = Inr (c', t', cache', outdated')"
      using cl pr True fb r by (subst Forward.simps) simp
    moreover have "ratio (keys ! pred_key keys (c' - 1)) \<le> r"
    proof (cases "Suc c < c'")
      case True
      then show ?thesis using p(7) by simp
    next
      case False
      then have "c' - 1 = c" using p(3) by simp
      then show ?thesis using \<open>ratio (keys ! (c - previous (keys ! c))) \<le> r\<close>
        by (simp add: pred_key_def)
    qed
    ultimately show ?thesis using p(1-6) lo dd by auto
  qed
qed

lemma clip_prev_le:
  assumes "clip_ok n keys" "n * 4 \<le> i" "i < length keys"
  shows "previous (keys ! i) \<le> i"
proof (cases "i < n * 4 * 2")
  case True
  then have "previous (keys ! i) = n * 4" using assms by (simp add: clip_ok_def clip_layout_def)
  then show ?thesis using assms(2) by simp
next
  case False
  then show ?thesis using clip_pred_range [OF assms(1) _ assms(3)] by simp
qed

lemma clip_n: "clip_ok n keys \<Longrightarrow> 1 \<le> n \<and> n * 4 * 2 \<le> length keys"
  by (simp add: clip_ok_def clip_layout_def)

lemma brackets_last:
  "brackets keys N c cache \<Longrightarrow> t < N
   \<Longrightarrow> N \<le> cache ! (t + N) \<and> cache ! (t + N) < c \<and> cache ! t = pred_key keys (cache ! (t + N))"
  by (simp add: brackets_def)

lemma brackets_no_successor:
  "brackets keys N c cache \<Longrightarrow> t < N \<Longrightarrow> N * 2 \<le> j \<Longrightarrow> j < c
   \<Longrightarrow> pred_key keys j \<noteq> cache ! (t + N)"
  by (simp add: brackets_def)

lemma brackets_ex:
  assumes "brackets keys N c cache" "N \<le> i" "i < c"
    and "\<forall>j. N * 2 \<le> j \<and> j < c \<longrightarrow> pred_key keys j \<noteq> i"
  shows "\<exists>t < N. cache ! (t + N) = i"
  using assms unfolding brackets_def by blast

lemma brackets_distinct:
  "brackets keys N c cache \<Longrightarrow> \<forall>t < N. \<forall>u < N. cache ! (t + N) = cache ! (u + N) \<longrightarrow> t = u"
  unfolding brackets_def by blast

lemma replay_step:
  assumes clip: "clip_ok n keys" and c: "n * 4 * 2 \<le> c" "c < length keys"
  shows "\<exists>t < n * 4. replay keys (n * 4) c ! (t + n * 4) = pred_key keys c
           \<and> replay keys (n * 4) (Suc c)
               = (replay keys (n * 4) c)[t := pred_key keys c, t + n * 4 := c]"
proof -
  let ?R = "replay keys (n * 4) c"
  have b: "brackets keys (n * 4) c ?R"
    using replay_brackets [OF clip c(1)] c(2) by simp
  from brackets_target [OF clip b c]
  obtain t where t: "t < n * 4" "?R ! (t + n * 4) = pred_key keys c"
    and uniq: "\<forall>u < n * 4. ?R ! (u + n * 4) = pred_key keys c \<longrightarrow> u = t" by blast
  have ft: "find_track ?R (n * 4) (pred_key keys c) = t"
    by (rule find_track_unique [OF t uniq])
  have "replay keys (n * 4) (Suc c) = ?R[t := pred_key keys c, t + n * 4 := c]"
    using c(1) ft t(2) by (simp add: replay_Suc consume_def)
  then show ?thesis using t by blast
qed

lemma rewind_body_step:
  assumes clip: "clip_ok n keys"
    and inv: "cursor_inv n keys dec soa c cache outdated"
    and c: "n * 4 * 2 < c" and tr: "track < n * 4"
  shows "\<exists>t cache' outdated'. t < n * 4
      \<and> cache ! (t + n * 4) = c - 1
      \<and> rewind_body keys (n * 4) c track cache outdated = Inr (t, cache', outdated')
      \<and> cache' = cache[t + n * 4 := cache ! t, t := pred_key keys (cache ! t)]
      \<and> mark_outdated outdated t = Inr outdated'
      \<and> (\<forall>g. dirty outdated' g \<longleftrightarrow> dirty outdated g \<or> g = t div 4)
      \<and> cursor_inv n keys dec soa (c - 1) cache' outdated'"
proof -
  let ?N = "n * 4"
  have n1: "1 \<le> n" using clip_n [OF clip] by simp
  have cK: "c \<le> length keys" and len: "?N * 2 \<le> length cache"
    and tk: "take (?N * 2) cache = replay keys ?N c"
    and co: "coherent n keys dec cache outdated soa"
    and nof: "(n + 7) div 8 \<le> length outdated"
    using inv by (simp_all add: cursor_inv_def)
  have c1: "?N * 2 \<le> c - 1" "c - 1 < length keys" "Suc (c - 1) = c" using c cK by simp_all
  have b: "brackets keys ?N c cache" by (rule inv_brackets [OF clip inv])
  have nosucc: "\<forall>j. ?N * 2 \<le> j \<and> j < c \<longrightarrow> pred_key keys j \<noteq> c - 1"
  proof (intro allI impI)
    fix j assume j: "?N * 2 \<le> j \<and> j < c"
    then have "pred_key keys j < j" using clip_pred_range [OF clip, of j] cK by simp
    then have "pred_key keys j < c - 1" using j by linarith
    then show "pred_key keys j \<noteq> c - 1" by simp
  qed
  have "\<exists>t < ?N. cache ! (t + ?N) = c - 1"
    by (rule brackets_ex [OF b _ _ nosucc]) (use c in simp_all)
  then obtain t where t: "t < ?N" "cache ! (t + ?N) = c - 1" by blast
  have uniq: "\<forall>u < ?N. cache ! (u + ?N) = c - 1 \<longrightarrow> u = t"
    using brackets_distinct [OF b] t by metis
  have tb: "TrackBackward cache (c - 1) track ?N = Inr t"
    by (rule TrackBackward_unique [OF len t uniq tr])
  from mark_outdated_dirty [OF t(1) nof]
  obtain outdated' where m: "mark_outdated outdated t = Inr outdated'"
    "length outdated' = length outdated"
    "\<And>g. dirty outdated' g \<longleftrightarrow> dirty outdated g \<or> g = t div 4" by blast
  have pen: "cache ! t = pred_key keys (c - 1)"
    using brackets_last [OF b t(1)] t(2) by simp
  let ?p = "pred_key keys (c - 1)"
  have pr: "?N \<le> ?p" "?p < c - 1"
    using clip_pred_range [OF clip c1(1) c1(2)] by simp_all
  have pK: "?p < length keys" using pr(2) c1(2) by simp
  have pp: "previous (keys ! ?p) \<le> ?p" by (rule clip_prev_le [OF clip pr(1) pK])
  let ?c1 = "cache[t + ?N := cache ! t]"
  let ?c' = "cache[t + ?N := cache ! t, t := pred_key keys (cache ! t)]"
  have tl: "t < length cache" "t + ?N < length cache" "t \<noteq> t + ?N"
    using t(1) len n1 by simp_all
  have c1t: "?c1 ! t = ?p" using tl pen by (simp add: nth_list_update)
  have rb: "rewind_body keys ?N c track cache outdated = Inr (t, ?c', outdated')"
    using c1(1) tb m(1) tl(2) t(2) c1t pK pp pen
    by (simp add: rewind_body_def Let_def pred_key_def)
  from replay_step [OF clip c1(1) c1(2)]
  obtain t0 where t0: "t0 < ?N" "replay keys ?N (c - 1) ! (t0 + ?N) = ?p"
    and rs: "replay keys ?N (Suc (c - 1)) = (replay keys ?N (c - 1))[t0 := ?p, t0 + ?N := c - 1]"
    by blast
  let ?R = "replay keys ?N (c - 1)"
  have bR: "brackets keys ?N (c - 1) ?R" and lR: "length ?R = ?N * 2"
    using replay_brackets [OF clip c1(1)] c1(2) by simp_all
  have tkR: "take (?N * 2) cache = ?R[t0 := ?p, t0 + ?N := c - 1]"
    using tk rs c1(3) by simp
  have "take (?N * 2) cache ! (t0 + ?N) = c - 1"
    unfolding tkR using t0(1) lR by simp
  then have "cache ! (t0 + ?N) = c - 1" using t0(1) by simp
  then have tt0: "t0 = t" using uniq t0(1) by blast
  have Rt: "?R ! t = pred_key keys ?p"
    using brackets_last [OF bR t(1)] t0(2) tt0 by simp
  have "take (?N * 2) ?c' = (take (?N * 2) cache)[t + ?N := ?p, t := pred_key keys ?p]"
    using pen by (simp add: take_update_swap)
  also have "\<dots> = ?R[t := ?p, t + ?N := c - 1, t + ?N := ?p, t := pred_key keys ?p]"
    using tkR tt0 by simp
  also have "\<dots> = ?R"
  proof (rule nth_equalityI)
    show "length (?R[t := ?p, t + ?N := c - 1, t + ?N := ?p, t := pred_key keys ?p]) = length ?R"
      by simp
  next
    fix i assume "i < length (?R[t := ?p, t + ?N := c - 1, t + ?N := ?p, t := pred_key keys ?p])"
    then have i: "i < length ?R" by simp
    show "?R[t := ?p, t + ?N := c - 1, t + ?N := ?p, t := pred_key keys ?p] ! i = ?R ! i"
    proof (cases "i = t")
      case True
      then show ?thesis using i Rt by simp
    next
      case nt: False
      show ?thesis
      proof (cases "i = t + ?N")
        case True
        then show ?thesis using i nt t0(2) tt0 by simp
      next
        case False
        then show ?thesis using nt by simp
      qed
    qed
  qed
  finally have tk': "take (?N * 2) ?c' = replay keys ?N (c - 1)" .
  have co': "coherent n keys dec ?c' outdated' soa"
    by (rule coherent_update [OF co t(1) m(3)]) simp
  have "cursor_inv n keys dec soa (c - 1) ?c' outdated'"
    using c1 len tk' co' nof m(2) by (simp add: cursor_inv_def)
  then show ?thesis using t rb m(1) m(3) by blast
qed

lemma Rewind_loop:
  assumes clip: "clip_ok n keys" and r0: "0 \<le> r"
  shows "c - n * 4 * 2 = d \<Longrightarrow> cursor_inv n keys dec soa c cache outdated \<Longrightarrow> track < n * 4
    \<Longrightarrow> \<exists>c' t' cache' outdated'.
          Rewind r keys (n * 4) c track cache outdated = Inr (c', t', cache', outdated')
          \<and> cursor_inv n keys dec soa c' cache' outdated' \<and> t' < n * 4 \<and> c' \<le> c
          \<and> length cache' = length cache \<and> length outdated' = length outdated
          \<and> \<not> r < ratio (keys ! pred_key keys (c' - 1))
          \<and> (c' < c \<longrightarrow> r < ratio (keys ! pred_key keys c'))
          \<and> (\<forall>g. dirty outdated' g \<longrightarrow> dirty outdated g \<or> g < n)"
proof (induction d arbitrary: c track cache outdated)
  case 0
  have n1: "1 \<le> n" using clip_n [OF clip] by simp
  have c2: "n * 4 * 2 \<le> c" "c \<le> length keys" using "0.prems" by (simp_all add: cursor_inv_def)
  then have ce: "c = n * 4 * 2" using "0.prems"(1) by simp
  have c0: "c \<noteq> 0" "\<not> length keys \<le> c - 1" using ce n1 c2 by simp_all
  have g: "n * 4 \<le> c - 1" "c - 1 < n * 4 * 2" "c - 1 < length keys" using ce n1 c2 by simp_all
  have pl: "\<not> c - 1 < previous (keys ! (c - 1))"
    using clip_prev_le [OF clip g(1) g(3)] by simp
  have "pred_key keys (c - 1) = c - 1 - n * 4" by (rule clip_seed [OF clip g(1) g(2)])
  then have "pred_key keys (c - 1) < n * 4" using ce n1 by simp
  then have z: "ratio (keys ! pred_key keys (c - 1)) = 0" by (rule clip_first [OF clip])
  then have nr: "\<not> r < ratio (keys ! pred_key keys (c - 1))" using r0 by simp
  then have nr': "\<not> r < ratio (keys ! (c - 1 - previous (keys ! (c - 1))))"
    by (simp add: pred_key_def)
  have "Rewind r keys (n * 4) c track cache outdated = Inr (c, track, cache, outdated)"
    using c0 pl nr' by (subst Rewind.simps) simp
  then show ?case using "0.prems" nr by simp
next
  case (Suc d)
  have n1: "1 \<le> n" using clip_n [OF clip] by simp
  have c2: "n * 4 * 2 < c" "c \<le> length keys" using Suc.prems by (simp_all add: cursor_inv_def)
  have c0: "c \<noteq> 0" "\<not> length keys \<le> c - 1" using c2 by simp_all
  have g: "n * 4 \<le> c - 1" "c - 1 < length keys" using c2 by simp_all
  have pl: "\<not> c - 1 < previous (keys ! (c - 1))"
    using clip_prev_le [OF clip g] by simp
  show ?case
  proof (cases "r < ratio (keys ! (c - 1 - previous (keys ! (c - 1))))")
    case False
    then have nr: "\<not> r < ratio (keys ! pred_key keys (c - 1))" by (simp add: pred_key_def)
    have "Rewind r keys (n * 4) c track cache outdated = Inr (c, track, cache, outdated)"
      using c0 pl False by (subst Rewind.simps) simp
    then show ?thesis using Suc.prems nr by simp
  next
    case True
    from rewind_body_step [OF clip Suc.prems(2) c2(1) Suc.prems(3)]
    obtain t cache1 outdated1 where t: "t < n * 4"
      and rb: "rewind_body keys (n * 4) c track cache outdated = Inr (t, cache1, outdated1)"
      and c1: "cache1 = cache[t + n * 4 := cache ! t, t := pred_key keys (cache ! t)]"
      and mo: "mark_outdated outdated t = Inr outdated1"
      and d1: "\<forall>g. dirty outdated1 g \<longleftrightarrow> dirty outdated g \<or> g = t div 4"
      and inv1: "cursor_inv n keys dec soa (c - 1) cache1 outdated1"
      by blast
    have tg: "t div 4 < n" using t by (simp add: less_mult_imp_div_less)
    have lo: "length outdated1 = length outdated"
      using mo by (auto simp: mark_outdated_def split: if_splits)
    have lc: "length cache1 = length cache" using c1 by simp
    have d: "c - 1 - n * 4 * 2 = d" using Suc.prems(1) by simp
    from Suc.IH [OF d inv1 t]
    obtain c' t' cache' outdated' where
      r: "Rewind r keys (n * 4) (c - 1) t cache1 outdated1 = Inr (c', t', cache', outdated')"
      and p: "cursor_inv n keys dec soa c' cache' outdated'" "t' < n * 4" "c' \<le> c - 1"
        "length cache' = length cache1" "length outdated' = length outdated1"
        "\<not> r < ratio (keys ! pred_key keys (c' - 1))"
        "c' < c - 1 \<longrightarrow> r < ratio (keys ! pred_key keys c')"
        "\<forall>g. dirty outdated' g \<longrightarrow> dirty outdated1 g \<or> g < n"
      by blast
    have dd: "\<forall>g. dirty outdated' g \<longrightarrow> dirty outdated g \<or> g < n"
      using p(8) d1 tg by blast
    have "Rewind r keys (n * 4) c track cache outdated = Inr (c', t', cache', outdated')"
      using c0 pl True rb r by (subst Rewind.simps) simp
    moreover have "r < ratio (keys ! pred_key keys c')"
    proof (cases "c' < c - 1")
      case True
      then show ?thesis using p(7) by simp
    next
      case False
      then have "c' = c - 1" using p(3) by simp
      then show ?thesis using \<open>r < ratio (keys ! (c - 1 - previous (keys ! (c - 1))))\<close>
        by (simp add: pred_key_def)
    qed
    moreover have "c' \<le> c" using p(3) by simp
    ultimately show ?thesis using p(1-6) lo lc dd by auto
  qed
qed

lemma init_cache_result:
  "L - c = d \<Longrightarrow> c \<le> L \<Longrightarrow> L \<le> length cache
   \<Longrightarrow> \<exists>cache'. init_cache cache c L = Inr (L, cache') \<and> length cache' = length cache
         \<and> (\<forall>i < length cache. cache' ! i = (if c \<le> i \<and> i < L then i else cache ! i))"
proof (induction d arbitrary: c cache)
  case 0
  then have "c = L" by simp
  then show ?case by (subst init_cache.simps) simp
next
  case (Suc d)
  then have cl: "c < L" "\<not> length cache \<le> c" by simp_all
  have "L - (c + 1) = d" "c + 1 \<le> L" "L \<le> length (cache[c := c])" using Suc.prems by simp_all
  from Suc.IH [OF this]
  obtain cache' where r: "init_cache (cache[c := c]) (c + 1) L = Inr (L, cache')"
    and l: "length cache' = length (cache[c := c])"
    and v: "\<forall>i < length (cache[c := c]). cache' ! i = (if c + 1 \<le> i \<and> i < L then i else cache[c := c] ! i)"
    by blast
  have "init_cache cache c L = Inr (L, cache')"
    using cl r by (subst init_cache.simps) simp
  moreover have "cache' ! i = (if c \<le> i \<and> i < L then i else cache ! i)" if "i < length cache" for i
    using v that cl by (cases "i = c") auto
  ultimately show ?case using l by simp
qed

lemma init_outdated_result:
  "nof - i = d \<Longrightarrow> nof \<le> length outdated
   \<Longrightarrow> \<exists>outdated'. init_outdated outdated i nof = Inr outdated' \<and> length outdated' = length outdated
         \<and> (\<forall>b < length outdated. outdated' ! b = (if i \<le> b \<and> b + 1 < nof then 0xff else outdated ! b))"
proof (induction d arbitrary: i outdated)
  case 0
  then have "\<not> i + 1 < nof" by simp
  then show ?case by (subst init_outdated.simps) auto
next
  case (Suc d)
  show ?case
  proof (cases "i + 1 < nof")
    case False
    then show ?thesis by (subst init_outdated.simps) auto
  next
    case True
    then have ib: "\<not> length outdated \<le> i" using Suc.prems by simp
    have "nof - (i + 1) = d" "nof \<le> length (outdated[i := 0xff])" using Suc.prems by simp_all
    from Suc.IH [OF this]
    obtain outdated' where r: "init_outdated (outdated[i := 0xff]) (i + 1) nof = Inr outdated'"
      and l: "length outdated' = length (outdated[i := 0xff])"
      and v: "\<forall>b < length (outdated[i := 0xff]). outdated' ! b =
                (if i + 1 \<le> b \<and> b + 1 < nof then 0xff else outdated[i := 0xff] ! b)"
      by blast
    have "init_outdated outdated i nof = Inr outdated'"
      using True ib r by (subst init_outdated.simps) simp
    moreover have "outdated' ! b = (if i \<le> b \<and> b + 1 < nof then 0xff else outdated ! b)"
      if "b < length outdated" for b
      using v that True by (cases "b = i") auto
    ultimately show ?thesis using l by simp
  qed
qed

lemma init_cursor_result:
  assumes n1: "1 \<le> n" and lc: "n * 4 * 2 \<le> length cache"
    and lo: "(n + 7) div 8 \<le> length outdated"
  shows "\<exists>cache' outdated'. init_cursor n 0 cache outdated = Inr (n * 4 * 2, cache', outdated')
      \<and> length cache' = length cache \<and> take (n * 4 * 2) cache' = [0..<n * 4 * 2]
      \<and> length outdated' = length outdated
      \<and> (\<forall>g < (n + 7) div 8 * 8. dirty outdated' g \<longleftrightarrow> g < n)"
proof -
  define Q where "Q = (n + 7) div 8"
  have Q1: "n \<le> Q * 8" "Q * 8 < n + 8"
    unfolding Q_def using dividend_less_div_times [of 8 "n + 7"] div_times_less_eq_dividend [of "n + 7" 8]
    by simp_all
  have Q0: "Q \<noteq> 0" using Q1(1) n1 by auto
  have lo': "Q \<le> length outdated" using lo by (simp add: Q_def)
  from init_cache_result [of "n * 4 * 2" 0 "n * 4 * 2" cache] lc
  obtain cache' where ic: "init_cache cache 0 (n * 4 * 2) = Inr (n * 4 * 2, cache')"
    and l1: "length cache' = length cache"
    and v1: "\<forall>i < length cache. cache' ! i = (if 0 \<le> i \<and> i < n * 4 * 2 then i else cache ! i)"
    by auto
  have tk: "take (n * 4 * 2) cache' = [0..<n * 4 * 2]"
    by (rule nth_equalityI) (use l1 lc v1 in auto)
  from init_outdated_result [of Q 0 Q outdated] lo'
  obtain o1 where io: "init_outdated outdated 0 Q = Inr o1"
    and l2: "length o1 = length outdated"
    and v2: "\<forall>b < length outdated. o1 ! b = (if 0 \<le> b \<and> b + 1 < Q then 0xff else outdated ! b)"
    by auto
  let ?o = "o1[Q - 1 := drop_bit (Q * 8 - n) 0xff]"
  have r: "init_cursor n 0 cache outdated = Inr (n * 4 * 2, cache', ?o)"
    using ic io Q0 l2 lo' by (simp add: init_cursor_def Q_def [symmetric])
  have d: "dirty ?o g \<longleftrightarrow> g < n" if g: "g < Q * 8" for g
  proof -
    define b where "b = g div 8"
    define m where "m = g mod 8"
    have gm: "g = b * 8 + m" "m < 8" by (simp_all add: b_def m_def)
    have bQ: "b < Q" using g gm by simp
    have bl: "b < length ?o" using bQ l2 lo' by simp
    show ?thesis
    proof (cases "b = Q - 1")
      case True
      have "dirty ?o g \<longleftrightarrow> bit (drop_bit (Q * 8 - n) (0xff :: 8 word)) m"
        using True bl by (simp add: dirty_def b_def [symmetric] m_def [symmetric])
      also have "\<dots> \<longleftrightarrow> m + (Q * 8 - n) < 8" by (rule bit_drop_ff)
      also have "\<dots> \<longleftrightarrow> g < n" using True gm Q1 Q0 by (cases Q) auto
      finally show ?thesis .
    next
      case False
      then have b1: "b + 1 < Q" using bQ by simp
      then have ob: "?o ! b = 0xff" using v2 bQ lo' False by simp
      have "bit (0xff :: 8 word) m" using gm(2) by (simp only: bit_ff)
      then have "bit (?o ! b) m" by (simp only: ob)
      then have "dirty ?o g" using bl unfolding dirty_def b_def m_def by blast
      moreover have "(b + 1) * 8 + 8 \<le> Q * 8" using b1
        by (metis Suc_eq_plus1 Suc_leI add.commute mult_Suc mult_le_mono1)
      then have "g < n" using gm Q1 by simp
      ultimately show ?thesis by simp
    qed
  qed
  show ?thesis using r l1 tk l2 d by (simp add: Q_def)
qed

lemma is_stop_unique:
  assumes "is_stop r keys n c1" "is_stop r keys n c2"
  shows "c1 = c2"
proof (rule ccontr)
  assume ne: "c1 \<noteq> c2"
  have False if a: "is_stop r keys n a" and b: "is_stop r keys n b" and lt: "a < b" for a b
  proof -
    have "a \<in> {n * 4 * 2..<b}" using a lt by (simp add: is_stop_def)
    then have "ratio (keys ! pred_key keys a) \<le> r" using b by (simp add: is_stop_def)
    moreover have "a \<noteq> length keys" using b lt by (simp add: is_stop_def)
    then have "r < ratio (keys ! pred_key keys a)" using a by (simp add: is_stop_def)
    ultimately show False by simp
  qed
  from this [of c1 c2] this [of c2 c1] assms ne show False by (cases "c1 < c2") auto
qed

lemma UpdateCacheCursor_result:
  assumes clip: "clip_ok n keys" and r0: "0 \<le> r"
    and lc: "n * 4 * 2 \<le> length cache0" and lo: "(n + 7) div 8 \<le> length outdated0"
    and start: "c0 = 0 \<or> cursor_inv n keys dec soa c0 cache0 outdated0"
  shows "\<exists>c cache outdated.
      UpdateCacheCursor r n keys c0 cache0 outdated0 = Inr (c, cache, outdated)
      \<and> cursor_inv n keys dec soa c cache outdated
      \<and> length cache = length cache0 \<and> length outdated = length outdated0
      \<and> is_stop r keys n c
      \<and> (\<forall>g < (n + 7) div 8 * 8. dirty outdated g \<longrightarrow> g < n \<or> (c0 \<noteq> 0 \<and> dirty outdated0 g))"
proof -
  let ?N = "n * 4"
  have n1: "1 \<le> n" and K: "?N * 2 \<le> length keys" using clip_n [OF clip] by simp_all
  have "\<exists>c1 cache1 outdated1.
      (if c0 = 0 then init_cursor n c0 cache0 outdated0 else Inr (c0, cache0, outdated0))
        = Inr (c1, cache1, outdated1)
      \<and> cursor_inv n keys dec soa c1 cache1 outdated1
      \<and> length cache1 = length cache0 \<and> length outdated1 = length outdated0
      \<and> (\<forall>g < (n + 7) div 8 * 8. dirty outdated1 g \<longrightarrow> g < n \<or> (c0 \<noteq> 0 \<and> dirty outdated0 g))"
  proof (cases "c0 = 0")
    case True
    from init_cursor_result [OF n1 lc lo]
    obtain cache' outdated' where i: "init_cursor n 0 cache0 outdated0 = Inr (?N * 2, cache', outdated')"
      and l: "length cache' = length cache0" "length outdated' = length outdated0"
      and tk: "take (?N * 2) cache' = [0..<?N * 2]"
      and d: "\<forall>g < (n + 7) div 8 * 8. dirty outdated' g \<longleftrightarrow> g < n"
      by blast
    have gl: "g < (n + 7) div 8 * 8" if "g < n" for g
      using group_byte [OF that] by (simp add: less_mult_imp_div_less div_less_iff_less_mult)
    have "coherent n keys dec cache' outdated' soa"
      unfolding coherent_def using d gl by auto
    then have "cursor_inv n keys dec soa (?N * 2) cache' outdated'"
      unfolding cursor_inv_def replay_start using K l lc lo tk by simp
    then show ?thesis using True i l d by simp
  next
    case False
    then show ?thesis using start by simp
  qed
  then obtain c1 cache1 outdated1 where
    s1: "(if c0 = 0 then init_cursor n c0 cache0 outdated0 else Inr (c0, cache0, outdated0))
          = Inr (c1, cache1, outdated1)"
    and inv1: "cursor_inv n keys dec soa c1 cache1 outdated1"
    and l1: "length cache1 = length cache0" "length outdated1 = length outdated0"
    and d1: "\<forall>g < (n + 7) div 8 * 8. dirty outdated1 g \<longrightarrow> g < n \<or> (c0 \<noteq> 0 \<and> dirty outdated0 g)"
    by blast
  have c1r: "?N * 2 \<le> c1" "c1 \<le> length keys" using inv1 by (simp_all add: cursor_inv_def)
  have z: "(0::nat) < ?N" using n1 by simp
  from Forward_loop [OF clip refl inv1 z, of r]
  obtain c2 t2 cache2 outdated2 where
    f: "Forward r keys ?N c1 0 cache1 outdated1 = Inr (c2, t2, cache2, outdated2)"
    and inv2: "cursor_inv n keys dec soa c2 cache2 outdated2" and t2: "t2 < ?N"
    and f1: "c1 \<le> c2" "length cache2 = length cache1" "length outdated2 = length outdated1"
    and fs: "c2 = length keys \<or> r < ratio (keys ! pred_key keys c2)"
    and d2: "\<forall>g. dirty outdated2 g \<longrightarrow> dirty outdated1 g \<or> g < n"
    by blast
  from Rewind_loop [OF clip r0 refl inv2 t2]
  obtain c3 t3 cache3 outdated3 where
    w: "Rewind r keys ?N c2 t2 cache2 outdated2 = Inr (c3, t3, cache3, outdated3)"
    and inv3: "cursor_inv n keys dec soa c3 cache3 outdated3"
    and w1: "c3 \<le> c2" "length cache3 = length cache2" "length outdated3 = length outdated2"
    and ws: "\<not> r < ratio (keys ! pred_key keys (c3 - 1))"
      "c3 < c2 \<longrightarrow> r < ratio (keys ! pred_key keys c3)"
    and d3: "\<forall>g. dirty outdated3 g \<longrightarrow> dirty outdated2 g \<or> g < n"
    by blast
  have dd: "\<forall>g < (n + 7) div 8 * 8. dirty outdated3 g \<longrightarrow> g < n \<or> (c0 \<noteq> 0 \<and> dirty outdated0 g)"
    using d1 d2 d3 by blast
  have c3r: "?N * 2 \<le> c3" "c3 \<le> length keys" using inv3 by (simp_all add: cursor_inv_def)
  have res: "UpdateCacheCursor r n keys c0 cache0 outdated0 = Inr (c3, cache3, outdated3)"
    unfolding UpdateCacheCursor_def Let_def s1 using n1 K c1r f w c3r by simp
  have below: "ratio (keys ! pred_key keys j) \<le> r" if "j \<in> {?N * 2..<c3}" for j
  proof -
    have j: "?N \<le> j" "j \<le> c3 - 1" "c3 - 1 < length keys" using that c3r by auto
    have "ratio (keys ! pred_key keys j) \<le> ratio (keys ! pred_key keys (c3 - 1))"
      by (rule clip_sorted [OF clip j])
    then show ?thesis using ws(1) by simp
  qed
  have above: "c3 = length keys \<or> r < ratio (keys ! pred_key keys c3)"
    using fs ws(2) w1(1) by (cases "c3 < c2") auto
  have "is_stop r keys n c3"
    using c3r below above by (simp add: is_stop_def)
  then show ?thesis using res inv3 w1 f1 l1 dd by simp
qed

lemma bracket_ratios:
  assumes clip: "clip_ok n keys" and r: "0 \<le> r" "r \<le> 1"
    and inv: "cursor_inv n keys dec soa c cache outdated"
    and stop: "is_stop r keys n c" and t: "t < n * 4"
  shows "ratio (keys ! (cache ! t)) \<le> r \<and> r \<le> ratio (keys ! (cache ! (t + n * 4)))"
proof -
  let ?N = "n * 4"
  let ?L = "cache ! (t + ?N)"
  have b: "brackets keys ?N c cache" by (rule inv_brackets [OF clip inv])
  have cK: "c \<le> length keys" using stop by (simp add: is_stop_def)
  have L: "?N \<le> ?L" "?L < c" "cache ! t = pred_key keys ?L"
    using brackets_last [OF b t] by simp_all
  have lower: "ratio (keys ! pred_key keys ?L) \<le> r"
  proof (cases "?N * 2 \<le> ?L")
    case True
    then have "?L \<in> {?N * 2..<c}" using L(2) by simp
    then show ?thesis using stop by (simp add: is_stop_def)
  next
    case False
    then have "pred_key keys ?L = ?L - ?N" using clip_seed [OF clip L(1)] by simp
    then have "pred_key keys ?L < ?N" using False t by simp
    then have "ratio (keys ! pred_key keys ?L) = 0" by (rule clip_first [OF clip])
    then show ?thesis using r(1) by simp
  qed
  have upper: "r \<le> ratio (keys ! ?L)"
  proof (cases "\<exists>j. ?L < j \<and> j < length keys \<and> pred_key keys j = ?L")
    case True
    then obtain j where j: "?L < j" "j < length keys" "pred_key keys j = ?L" by blast
    have j2: "?N * 2 \<le> j"
    proof (rule ccontr)
      assume "\<not> ?N * 2 \<le> j"
      then have "pred_key keys j = j - ?N" "j < ?N * 2" using clip_seed [OF clip, of j] j(1) L(1) by simp_all
      then show False using j(3) L(1) by simp
    qed
    have "\<not> j < c" using brackets_no_successor [OF b t j2] j(3) by auto
    then have cj: "c \<le> j" by simp
    then have "c \<noteq> length keys" using j(2) by simp
    then have "r < ratio (keys ! pred_key keys c)" using stop by (simp add: is_stop_def)
    moreover have "ratio (keys ! pred_key keys c) \<le> ratio (keys ! pred_key keys j)"
      by (rule clip_sorted [OF clip _ cj j(2)]) (use stop in \<open>simp add: is_stop_def\<close>)
    ultimately show ?thesis using j(3) by simp
  next
    case False
    then have "ratio (keys ! ?L) = 1"
      by (intro clip_final [OF clip L(1)]) (use L(2) cK in auto)
    then show ?thesis using r(2) by simp
  qed
  show ?thesis using lower upper L(3) by simp
qed

subsection \<open>The bracket invariant\<close>

lemma cursor_inv_iff:
  "cursor_inv n keys dec soa c cache outdated
     \<longleftrightarrow> cursor_ok n keys c cache outdated \<and> coherent n keys dec cache outdated soa"
  by (auto simp: cursor_inv_def cursor_ok_def)

lemma cursor_ok_inv:
  assumes "cursor_ok n keys c cache outdated"
  shows "cursor_inv n keys (\<lambda>_ _ _ _. ()) (map (decode_group n keys cache (\<lambda>_ _ _ _. ())) [0..<n])
           c cache outdated"
  using assms by (simp add: cursor_inv_iff coherent_def)

text \<open>
  C1, as the claim states it: for a clip whose keys are sorted by time, with correct
  back-distances and the first two keys of every track in the first entries, and a ratio
  between 0 and 1, the last bracket of every track has a ratio at or above the query
  ratio after \<open>UpdateCacheCursor\<close>. The keys of \<open>clipB\<close> are sorted by their ratio and laid
  out as required. At the ratio 9/16, from a cursor of 0, the call returns with the last
  bracket of track 0 at entry 4, whose ratio is 1/8: the loop stops at entry 9, because
  the key before it on its track has ratio 5/8, and never reaches the keys of ratio 1 of
  the tracks 0, 1 and 2.
\<close>

theorem C1_counterexample:
  "clip_layout 1 clipB \<and> sorted (map ratio clipB)
   \<and> UpdateCacheCursor (9 / 16) 1 clipB 0 (replicate 8 0) [0]
       = Inr (9, [0, 1, 2, 7, 4, 5, 6, 8], [1])
   \<and> \<not> 9 / 16 \<le> ratio (clipB ! ([0, 1, 2, 7, 4, 5, 6, 8] ! (0 + 1 * 4)))"
  by code_simp

text \<open>
  C1, amended: for a clip that is laid out as \<open>clip_layout\<close> says and whose keys, from the
  second key of each track on, are sorted by the ratio of the key before them on the same
  track, for a query ratio between 0 and 1, and from a cursor of 0 or from a cursor and
  bracket array that reflect the entries consumed so far, \<open>UpdateCacheCursor\<close> returns;
  after it, for every track, the ratio of the penultimate bracket is at most the query
  ratio, which is at most the ratio of the last bracket; the bracket array is the one that
  consuming the first \<open>c\<close> entries of the stream produces, \<open>c\<close> being the returned cursor;
  and \<open>c\<close> is the cursor that belongs to the query ratio.
\<close>

theorem C1_brackets:
  assumes clip: "clip_ok n keys" and r: "0 \<le> r" "r \<le> 1"
    and lc: "n * 4 * 2 \<le> length cache0" and lo: "(n + 7) div 8 \<le> length outdated0"
    and start: "c0 = 0 \<or> cursor_ok n keys c0 cache0 outdated0"
  shows "\<exists>c cache outdated.
      UpdateCacheCursor r n keys c0 cache0 outdated0 = Inr (c, cache, outdated)
      \<and> (\<forall>t < n * 4. ratio (keys ! (cache ! t)) \<le> r \<and> r \<le> ratio (keys ! (cache ! (t + n * 4))))
      \<and> cursor_ok n keys c cache outdated
      \<and> is_stop r keys n c"
proof -
  let ?dec = "\<lambda>_ _ _ _. ()"
  let ?soa = "map (decode_group n keys cache0 ?dec) [0..<n]"
  have start': "c0 = 0 \<or> cursor_inv n keys ?dec ?soa c0 cache0 outdated0"
    using start cursor_ok_inv [of n keys c0 cache0 outdated0] by blast
  from UpdateCacheCursor_result [OF clip r(1) lc lo start']
  obtain c cache outdated where
    res: "UpdateCacheCursor r n keys c0 cache0 outdated0 = Inr (c, cache, outdated)"
    and inv: "cursor_inv n keys ?dec ?soa c cache outdated"
    and stop: "is_stop r keys n c"
    by blast
  have br: "\<forall>t < n * 4. ratio (keys ! (cache ! t)) \<le> r \<and> r \<le> ratio (keys ! (cache ! (t + n * 4)))"
    using bracket_ratios [OF clip r inv stop] by blast
  have "cursor_ok n keys c cache outdated" using inv by (simp add: cursor_inv_iff)
  then show ?thesis using res br stop by blast
qed

theorem C1_brackets_witness:
  "clip_ok 1 clipA \<and> (0 :: real) \<le> 5 / 8 \<and> (5 / 8 :: real) \<le> 1
   \<and> 1 * 4 * 2 \<le> length (replicate 8 (0 :: nat)) \<and> (1 + 7) div 8 \<le> length [0 :: 8 word]
   \<and> (\<exists>c cache outdated.
      UpdateCacheCursor (5 / 8) 1 clipA 0 (replicate 8 0) [0] = Inr (c, cache, outdated)
      \<and> (\<forall>t < 1 * 4. ratio (clipA ! (cache ! t)) \<le> 5 / 8
                       \<and> 5 / 8 \<le> ratio (clipA ! (cache ! (t + 1 * 4))))
      \<and> cursor_ok 1 clipA c cache outdated
      \<and> is_stop (5 / 8) clipA 1 c)
   \<and> UpdateCacheCursor (5 / 8) 1 clipA 0 (replicate 8 0) [0]
       = Inr (10, [4, 1, 2, 7, 8, 5, 6, 9], [1])"
proof -
  have h1: "clip_ok 1 clipA" by code_simp
  have h2: "(0 :: real) \<le> 5 / 8" "(5 / 8 :: real) \<le> 1" by simp_all
  have h3: "1 * 4 * 2 \<le> length (replicate 8 (0 :: nat))" "(1 + 7) div 8 \<le> length [0 :: 8 word]"
    by simp_all
  have e: "UpdateCacheCursor (5 / 8) 1 clipA 0 (replicate 8 0) [0]
       = Inr (10, [4, 1, 2, 7, 8, 5, 6, 9], [1])" by code_simp
  show ?thesis
    using C1_brackets [OF h1 h2 h3, of 0] h1 h2 h3 e by blast
qed

subsection \<open>The forward phase\<close>

text \<open>
  C4, as the claim states it: the entry at the cursor is consumed exactly while its own
  ratio is at most the query ratio. On \<open>clipA\<close>, at the ratio 5/8 and from cursor 8, the
  entry at the cursor has ratio 3/4, and the loop consumes it and the next one: it stops
  at cursor 10.
\<close>

theorem C4_counterexample:
  "\<not> ratio (clipA ! 8) \<le> 5 / 8
   \<and> Forward (5 / 8) clipA 4 8 0 [0, 1, 2, 3, 4, 5, 6, 7] [1]
       = Inr (10, 3, [4, 1, 2, 7, 8, 5, 6, 9], [1])"
  by code_simp

text \<open>
  C4, amended: in the forward phase, for a clip as in C1 and a cursor and bracket array
  that reflect the entries consumed so far, the entry at the cursor is consumed exactly
  while the cursor is inside the stream and the key before that entry on its track (at
  \<open>cursor - previous\<close>) has a ratio at most the query ratio. Consuming it makes it the last
  bracket of the track whose last bracket was that key, makes the old last bracket the
  penultimate one, advances the cursor by one and sets the dirty bit of the track's
  group; otherwise the loop ends and leaves the state as it is.
\<close>

theorem C4_forward_step:
  assumes clip: "clip_ok n keys" and ok: "cursor_ok n keys c cache outdated"
    and tr: "track < n * 4"
  shows "(c < length keys \<and> ratio (keys ! pred_key keys c) \<le> r \<longrightarrow>
            (\<exists>t outdated'. t < n * 4 \<and> cache ! (t + n * 4) = pred_key keys c
               \<and> mark_outdated outdated t = Inr outdated' \<and> dirty outdated' (t div 4)
               \<and> Forward r keys (n * 4) c track cache outdated
                   = Forward r keys (n * 4) (c + 1) t
                       (cache[t := cache ! (t + n * 4), t + n * 4 := c]) outdated'))
       \<and> (\<not> (c < length keys \<and> ratio (keys ! pred_key keys c) \<le> r) \<longrightarrow>
            Forward r keys (n * 4) c track cache outdated = Inr (c, track, cache, outdated))"
proof (intro conjI impI)
  assume a: "c < length keys \<and> ratio (keys ! pred_key keys c) \<le> r"
  have c2: "n * 4 * 2 \<le> c" using ok by (simp add: cursor_ok_def)
  have pr: "\<not> c < previous (keys ! c)" using clip_pred_range [OF clip c2] a by simp
  from forward_body_step [OF clip cursor_ok_inv [OF ok] _ tr] a
  obtain t outdated' where t: "t < n * 4" "cache ! (t + n * 4) = pred_key keys c"
    and fb: "forward_body keys (n * 4) c track cache outdated
          = Inr (t, cache[t := cache ! (t + n * 4), t + n * 4 := c], outdated')"
    and mo: "mark_outdated outdated t = Inr outdated'"
    and d: "\<forall>g. dirty outdated' g \<longleftrightarrow> dirty outdated g \<or> g = t div 4"
    by blast
  have "Forward r keys (n * 4) c track cache outdated
          = Forward r keys (n * 4) (c + 1) t (cache[t := cache ! (t + n * 4), t + n * 4 := c]) outdated'"
    using a pr fb by (subst Forward.simps) (simp add: pred_key_def)
  moreover have "dirty outdated' (t div 4)" using d by simp
  ultimately show "\<exists>t outdated'. t < n * 4 \<and> cache ! (t + n * 4) = pred_key keys c
               \<and> mark_outdated outdated t = Inr outdated' \<and> dirty outdated' (t div 4)
               \<and> Forward r keys (n * 4) c track cache outdated
                   = Forward r keys (n * 4) (c + 1) t
                       (cache[t := cache ! (t + n * 4), t + n * 4 := c]) outdated'"
    using t mo by blast
next
  assume a: "\<not> (c < length keys \<and> ratio (keys ! pred_key keys c) \<le> r)"
  have c2: "n * 4 * 2 \<le> c" using ok by (simp add: cursor_ok_def)
  show "Forward r keys (n * 4) c track cache outdated = Inr (c, track, cache, outdated)"
  proof (cases "c < length keys")
    case False
    then show ?thesis by (subst Forward.simps) simp
  next
    case True
    then have pr: "\<not> c < previous (keys ! c)" using clip_pred_range [OF clip c2] by simp
    from True a have "\<not> ratio (keys ! (c - previous (keys ! c))) \<le> r" by (simp add: pred_key_def)
    with True pr show ?thesis by (subst Forward.simps) simp
  qed
qed

theorem C4_forward_step_witness:
  "clip_ok 1 clipA \<and> cursor_ok 1 clipA 8 [0, 1, 2, 3, 4, 5, 6, 7] [1] \<and> (0 :: nat) < 1 * 4
   \<and> (8 < length clipA \<and> ratio (clipA ! pred_key clipA 8) \<le> 5 / 8)
   \<and> (\<exists>t outdated'. t < 1 * 4 \<and> [0, 1, 2, 3, 4, 5, 6, 7] ! (t + 1 * 4) = pred_key clipA 8
          \<and> mark_outdated [1] t = Inr outdated' \<and> dirty outdated' (t div 4)
          \<and> Forward (5 / 8) clipA (1 * 4) 8 0 [0, 1, 2, 3, 4, 5, 6, 7] [1]
              = Forward (5 / 8) clipA (1 * 4) (8 + 1) t
                  ([0, 1, 2, 3, 4, 5, 6, 7][t := [0, 1, 2, 3, 4, 5, 6, 7] ! (t + 1 * 4), t + 1 * 4 := 8])
                  outdated')"
proof -
  have h1: "clip_ok 1 clipA" by code_simp
  have h2: "cursor_ok 1 clipA 8 [0, 1, 2, 3, 4, 5, 6, 7] [1]" by code_simp
  have h3: "(0 :: nat) < 1 * 4" by simp
  have h4: "8 < length clipA \<and> ratio (clipA ! pred_key clipA 8) \<le> 5 / 8" by code_simp
  show ?thesis
    using C4_forward_step [OF h1 h2 h3, of "5 / 8"] h1 h2 h3 h4 by blast
qed

end
